theory Spec2Isabelle
  imports Main "HOL-Library.Word" "HOL-Library.AList" "HOL-Library.Sublist"
begin

unbundle bit_operations_syntax

section \<open>Configuration (environment.ts)\<close>

text \<open>
  \<^verbatim>\<open>runtime.getSetting(key)\<close> yields a string, \<^verbatim>\<open>null\<close> or \<^verbatim>\<open>undefined\<close>.
  The runtime is modelled by its \<^verbatim>\<open>getSetting\<close> function.
\<close>

datatype setting = Undefined | Null | Str string

type_synonym runtime_settings = "string \<Rightarrow> setting"

text \<open>
  The zod check \<^verbatim>\<open>z.string().min(1, msg)\<close>: a value that is not a string is rejected
  with zod's type message, a string shorter than one character with \<open>msg\<close>.
  The result is the issue message, or \<open>None\<close> when the value passes.
\<close>

fun z_string_min1 :: "string \<Rightarrow> setting \<Rightarrow> string option" where
  "z_string_min1 msg Undefined = Some ''Required''"
| "z_string_min1 msg Null = Some ''Expected string, received null''"
| "z_string_min1 msg (Str s) = (if length s < 1 then Some msg else None)"

text \<open>The five entries of \<^verbatim>\<open>githubEnvSchema\<close>, in the order of the object schema.\<close>

definition githubEnvSchema :: "(string \<times> string) list" where
  "githubEnvSchema =
    [(''GITHUB_OWNER'', ''GitHub owner is required''),
     (''GITHUB_REPO'', ''GitHub repo is required''),
     (''GITHUB_BRANCH'', ''GitHub branch is required''),
     (''GITHUB_PATH'', ''GitHub path is required''),
     (''GITHUB_API_TOKEN'', ''GitHub API token is required'')]"

record github_config =
  cfg_owner :: string
  cfg_repo :: string
  cfg_branch :: string
  cfg_path :: string
  cfg_token :: string

text \<open>The issues zod collects: one \<^verbatim>\<open>path: message\<close> line per failing key.\<close>

definition schema_issues :: "runtime_settings \<Rightarrow> string list" where
  "schema_issues getSetting =
    concat (map (\<lambda>(key, msg). case z_string_min1 msg (getSetting key) of
                                   None \<Rightarrow> []
                                 | Some m \<Rightarrow> [key @ '': '' @ m]) githubEnvSchema)"

fun join_lines :: "string list \<Rightarrow> string" where
  "join_lines [] = []"
| "join_lines [l] = l"
| "join_lines (l # ls) = l @ [CHR 0x0A] @ join_lines ls"

fun str_of :: "setting \<Rightarrow> string" where
  "str_of (Str s) = s"
| "str_of _ = []"

text \<open>
  \<^verbatim>\<open>validateGithubConfig\<close>: the parsed configuration, or the \<^verbatim>\<open>Error\<close> whose message
  lists every issue.
\<close>

definition validateGithubConfig :: "runtime_settings \<Rightarrow> string + github_config" where
  "validateGithubConfig getSetting =
    (case schema_issues getSetting of
       [] \<Rightarrow> Inr \<lparr> cfg_owner = str_of (getSetting ''GITHUB_OWNER''),
                   cfg_repo = str_of (getSetting ''GITHUB_REPO''),
                   cfg_branch = str_of (getSetting ''GITHUB_BRANCH''),
                   cfg_path = str_of (getSetting ''GITHUB_PATH''),
                   cfg_token = str_of (getSetting ''GITHUB_API_TOKEN'') \<rparr>
     | issues \<Rightarrow> Inl (''GitHub configuration validation failed:'' @ [CHR 0x0A] @ join_lines issues))"

definition nonempty_string :: "setting \<Rightarrow> bool" where
  "nonempty_string v = (case v of Str s \<Rightarrow> s \<noteq> [] | _ \<Rightarrow> False)"

text \<open>Whether validation accepts the settings of a runtime.\<close>

definition accepts :: "runtime_settings \<Rightarrow> bool" where
  "accepts getSetting =
     (case validateGithubConfig getSetting of Inl msg \<Rightarrow> False | Inr cfg \<Rightarrow> True)"

section \<open>Paths (node:path, POSIX)\<close>

text \<open>
  An absolute path is the list of its segments below the root directory.
  \<^verbatim>\<open>path.join\<close> joins its arguments with \<^verbatim>\<open>/\<close> and normalises the result: empty
  segments and \<^verbatim>\<open>.\<close> disappear, \<^verbatim>\<open>..\<close> removes the segment before it (and is dropped
  at the root).
\<close>

type_synonym path = "string list"

fun split_slash_acc :: "string \<Rightarrow> string \<Rightarrow> string list" where
  "split_slash_acc cur [] = [rev cur]"
| "split_slash_acc cur (c # cs) =
     (if c = CHR ''/'' then rev cur # split_slash_acc [] cs else split_slash_acc (c # cur) cs)"

definition split_slash :: "string \<Rightarrow> string list" where
  "split_slash s = split_slash_acc [] s"

definition normalize_step :: "string \<Rightarrow> path \<Rightarrow> path" where
  "normalize_step s acc =
     (if s = [] \<or> s = ''.'' then acc else if s = ''..'' then tl acc else s # acc)"

definition normalize :: "string list \<Rightarrow> path" where
  "normalize segs = rev (fold normalize_step segs [])"

text \<open>\<^verbatim>\<open>path.join(base, s1, ..., sn)\<close> for an absolute, normalised \<open>base\<close>.\<close>

definition path_join :: "path \<Rightarrow> string list \<Rightarrow> path" where
  "path_join base strs = normalize (base @ concat (map split_slash strs))"

fun join_slash :: "string list \<Rightarrow> string" where
  "join_slash [] = []"
| "join_slash [s] = s"
| "join_slash (s # ss) = s @ ''/'' @ join_slash ss"

fun strip_common :: "path \<Rightarrow> path \<Rightarrow> path \<times> path" where
  "strip_common (a # as) (b # bs) = (if a = b then strip_common as bs else (a # as, b # bs))"
| "strip_common as bs = (as, bs)"

text \<open>\<^verbatim>\<open>path.relative(from, to)\<close> for two absolute, normalised paths.\<close>

definition path_relative :: "path \<Rightarrow> path \<Rightarrow> string" where
  "path_relative from to =
     (case strip_common from to of
        (f, t) \<Rightarrow> join_slash (map (\<lambda>_. ''..'') f @ t))"

text \<open>What \<^verbatim>\<open>path.relative\<close> joins with slashes: segments, \<^verbatim>\<open>..\<close> among them.\<close>

definition segment :: "string \<Rightarrow> bool" where
  "segment s = (s \<noteq> [] \<and> CHR ''/'' \<notin> set s)"

section \<open>Repository mirror (client.ts: initialize, cloneRepository)\<close>

text \<open>
  The calls the client makes on the file system and on git, in the order it makes them.
\<close>

datatype call =
    Mkdir path
  | GitClone string path
  | GitPull path
  | GitCheckout path string

datatype error =
    MkdirFailed path
  | CloneExhausted string
  | PullFailed path
  | CheckoutFailed string
  | ReadFailed path
  | WriteFailed path
  | NotARepository path
  | BranchCreateFailed string
  | GitAddFailed
  | PushFailed
  | PullRequestRejected

text \<open>
  What the client cannot decide by itself: the working directory of the process, whether
  the mirror directory exists, and the outcome of each external call. \<open>clone_ok k\<close> is
  the outcome of the clone attempt made after \<open>k\<close> failed ones.
\<close>

record env =
  cwd :: path
  mkdir_ok :: bool
  mirror_exists :: bool
  clone_ok :: "nat \<Rightarrow> bool"
  pull_ok :: bool
  checkout_ok :: "string \<Rightarrow> bool"

definition ownerDir :: "path \<Rightarrow> github_config \<Rightarrow> path" where
  "ownerDir wd cfg = path_join wd [''.repos'', cfg_owner cfg]"

definition repoPath :: "path \<Rightarrow> github_config \<Rightarrow> path" where
  "repoPath wd cfg = path_join wd [''.repos'', cfg_owner cfg, cfg_repo cfg]"

definition repositoryUrl :: "github_config \<Rightarrow> string" where
  "repositoryUrl cfg = ''https://github.com/'' @ cfg_owner cfg @ ''/'' @ cfg_repo cfg @ ''.git''"

definition maxRetries :: nat where
  "maxRetries = 3"

definition clone_error :: "github_config \<Rightarrow> error" where
  "clone_error cfg =
     CloneExhausted (''Unable to clone repository from '' @ repositoryUrl cfg @ '' after 3 retries.'')"

text \<open>
  The \<^verbatim>\<open>while (retries < maxRetries)\<close> loop of \<^verbatim>\<open>cloneRepository\<close>, from a given value of
  \<^verbatim>\<open>retries\<close>. It returns the outcome and the calls made.
\<close>

function cloneRepository_loop :: "env \<Rightarrow> github_config \<Rightarrow> nat \<Rightarrow> (error + unit) \<times> call list" where
  "cloneRepository_loop e cfg retries =
    (if retries < maxRetries then
       (if clone_ok e retries then (Inr (), [GitClone (repositoryUrl cfg) (repoPath (cwd e) cfg)])
        else if retries + 1 = maxRetries
          then (Inl (clone_error cfg), [GitClone (repositoryUrl cfg) (repoPath (cwd e) cfg)])
        else (case cloneRepository_loop e cfg (retries + 1) of
                (r, cs) \<Rightarrow> (r, GitClone (repositoryUrl cfg) (repoPath (cwd e) cfg) # cs)))
     else (Inr (), []))"
  by pat_completeness auto
termination
  by (relation "measure (\<lambda>(e, cfg, retries). maxRetries - retries)") auto

definition cloneRepository :: "env \<Rightarrow> github_config \<Rightarrow> (error + unit) \<times> call list" where
  "cloneRepository e cfg = cloneRepository_loop e cfg 0"

text \<open>The final \<^verbatim>\<open>if (this.config.branch)\<close> block of \<^verbatim>\<open>initialize\<close>.\<close>

definition checkout_branch :: "env \<Rightarrow> github_config \<Rightarrow> (error + unit) \<times> call list" where
  "checkout_branch e cfg =
    (if cfg_branch cfg \<noteq> [] then
       (if checkout_ok e (cfg_branch cfg) then Inr () else Inl (CheckoutFailed (cfg_branch cfg)),
        [GitCheckout (repoPath (cwd e) cfg) (cfg_branch cfg)])
     else (Inr (), []))"

definition initialize :: "env \<Rightarrow> github_config \<Rightarrow> (error + unit) \<times> call list" where
  "initialize e cfg =
    (if \<not> mkdir_ok e then
       (Inl (MkdirFailed (ownerDir (cwd e) cfg)), [Mkdir (ownerDir (cwd e) cfg)])
     else if \<not> mirror_exists e then
       (case cloneRepository e cfg of
          (Inl err, cs) \<Rightarrow> (Inl err, Mkdir (ownerDir (cwd e) cfg) # cs)
        | (Inr u, cs) \<Rightarrow>
            (case checkout_branch e cfg of
               (r, cs') \<Rightarrow> (r, Mkdir (ownerDir (cwd e) cfg) # cs @ cs')))
     else if \<not> pull_ok e then
       (Inl (PullFailed (repoPath (cwd e) cfg)),
        [Mkdir (ownerDir (cwd e) cfg), GitPull (repoPath (cwd e) cfg)])
     else
       (case checkout_branch e cfg of
          (r, cs') \<Rightarrow> (r, [Mkdir (ownerDir (cwd e) cfg), GitPull (repoPath (cwd e) cfg)] @ cs')))"

fun is_clone :: "call \<Rightarrow> bool" where
  "is_clone (GitClone u p) = True"
| "is_clone _ = False"

fun is_pull :: "call \<Rightarrow> bool" where
  "is_pull (GitPull p) = True"
| "is_pull _ = False"

definition clone_attempts :: "call list \<Rightarrow> nat" where
  "clone_attempts cs = length (filter is_clone cs)"

definition pulls :: "call list \<Rightarrow> nat" where
  "pulls cs = length (filter is_pull cs)"

section \<open>File system\<close>

text \<open>
  A directory tree. A file holds its bytes, or \<open>None\<close> when it is listed but cannot be
  read (for instance for lack of permission). Symbolic links are not modelled.
\<close>

type_synonym byte = "8 word"

datatype fsnode = File "byte list option" | Dir "(string \<times> fsnode) list"

fun resolve :: "fsnode \<Rightarrow> path \<Rightarrow> fsnode option" where
  "resolve n [] = Some n"
| "resolve (File c) (s # ss) = None"
| "resolve (Dir es) (s # ss) = (case map_of es s of None \<Rightarrow> None | Some n \<Rightarrow> resolve n ss)"

definition dot_name :: "string \<Rightarrow> bool" where
  "dot_name s = (case s of [] \<Rightarrow> False | c # cs \<Rightarrow> c = CHR ''.'')"

text \<open>
  The matches of the pattern \<^verbatim>\<open>**/*\<close> below a directory, with glob's options
  \<^verbatim>\<open>{ nodir: true }\<close> and its default \<^verbatim>\<open>dot: false\<close>: \<^verbatim>\<open>**\<close> descends through
  directories and \<^verbatim>\<open>*\<close> matches one name, neither matches a name that starts with
  a dot, and directories themselves are left out. The entries of a directory come in the
  order of its listing, and the matches below an entry come before the next entry; glob
  promises no order.
\<close>

fun globstar :: "fsnode \<Rightarrow> path list" and globstar_entries :: "(string \<times> fsnode) list \<Rightarrow> path list" where
  "globstar (File c) = [[]]"
| "globstar (Dir es) = globstar_entries es"
| "globstar_entries [] = []"
| "globstar_entries ((name, n) # es) =
     (if dot_name name then globstar_entries es
      else map (\<lambda>p. name # p) (globstar n) @ globstar_entries es)"

text \<open>
  A well-formed tree has no two entries of one name in a directory. The two notions
  below state what a path is in a tree: free of dot names, and a file.
\<close>

fun wf_fs :: "fsnode \<Rightarrow> bool" and wf_entries :: "(string \<times> fsnode) list \<Rightarrow> bool" where
  "wf_fs (File c) = True"
| "wf_fs (Dir es) = wf_entries es"
| "wf_entries [] = True"
| "wf_entries ((name, n) # es) = (name \<notin> fst ` set es \<and> wf_fs n \<and> wf_entries es)"

definition no_dot :: "path \<Rightarrow> bool" where
  "no_dot p = list_all (\<lambda>s. \<not> dot_name s) p"

definition is_file :: "fsnode option \<Rightarrow> bool" where
  "is_file r = (case r of Some (File c) \<Rightarrow> True | _ \<Rightarrow> False)"

definition is_dir :: "fsnode option \<Rightarrow> bool" where
  "is_dir r = (case r of Some (Dir es) \<Rightarrow> True | _ \<Rightarrow> False)"

text \<open>
  The names a directory can hold: not empty, without a slash, and neither \<^verbatim>\<open>.\<close> nor
  \<^verbatim>\<open>..\<close>. A tree has valid names when every entry in it has one.
\<close>

definition valid_name :: "string \<Rightarrow> bool" where
  "valid_name s = (s \<noteq> [] \<and> CHR ''/'' \<notin> set s \<and> s \<noteq> ''.'' \<and> s \<noteq> ''..'')"

fun valid_names :: "fsnode \<Rightarrow> bool" and valid_entries :: "(string \<times> fsnode) list \<Rightarrow> bool" where
  "valid_names (File c) = True"
| "valid_names (Dir es) = valid_entries es"
| "valid_entries [] = True"
| "valid_entries ((name, n) # es) = (valid_name name \<and> valid_names n \<and> valid_entries es)"

text \<open>
  A path segment that glob takes literally: it holds none of the characters that glob
  patterns give a meaning to.
\<close>

definition glob_literal :: "string \<Rightarrow> bool" where
  "glob_literal s = (set s \<inter> set (CHR 0x5C # ''*?[]{}()!+@#'') = {})"

text \<open>
  \<^verbatim>\<open>glob(base + "/**/*", { nodir: true })\<close> for an absolute \<open>base\<close> whose segments hold
  no glob pattern character: the absolute paths of the matches. A base that is missing
  or is a file has no match.
\<close>

definition glob_nodir :: "fsnode \<Rightarrow> path \<Rightarrow> path list" where
  "glob_nodir root base =
     (case resolve root base of
        Some (Dir es) \<Rightarrow> map (\<lambda>p. base @ p) (globstar_entries es)
      | _ \<Rightarrow> [])"

section \<open>Text and bytes\<close>

text \<open>
  A JavaScript string that was decoded from bytes is a sequence of Unicode scalar values,
  here natural numbers. \<^verbatim>\<open>fs.readFile(file, "utf-8")\<close> decodes the bytes of the file as
  UTF-8; a byte sequence that is not well-formed yields the replacement character U+FFFD
  for each maximal ill-formed part, and no byte order mark is removed.
\<close>

type_synonym ustring = "nat list"

definition replacement_char :: nat where
  "replacement_char = 0xFFFD"

function utf8_decode_from :: "nat \<Rightarrow> nat \<Rightarrow> byte \<Rightarrow> byte \<Rightarrow> byte list \<Rightarrow> ustring" where
  "utf8_decode_from cp needed lo hi [] = (if needed \<noteq> 0 then [replacement_char] else [])"
| "utf8_decode_from cp needed lo hi (b # bs) =
    (if needed = 0 then
       (if b \<le> 0x7F then unat b # utf8_decode_from 0 0 0x80 0xBF bs
        else if 0xC2 \<le> b \<and> b \<le> 0xDF then
          utf8_decode_from (unat (b AND 0x1F)) 1 0x80 0xBF bs
        else if 0xE0 \<le> b \<and> b \<le> 0xEF then
          utf8_decode_from (unat (b AND 0x0F)) 2
            (if b = 0xE0 then 0xA0 else 0x80) (if b = 0xED then 0x9F else 0xBF) bs
        else if 0xF0 \<le> b \<and> b \<le> 0xF4 then
          utf8_decode_from (unat (b AND 0x07)) 3
            (if b = 0xF0 then 0x90 else 0x80) (if b = 0xF4 then 0x8F else 0xBF) bs
        else replacement_char # utf8_decode_from 0 0 0x80 0xBF bs)
     else if b < lo \<or> hi < b then
       replacement_char # utf8_decode_from 0 0 0x80 0xBF (b # bs)
     else if needed = 1 then
       (cp * 64 + unat (b AND 0x3F)) # utf8_decode_from 0 0 0x80 0xBF bs
     else utf8_decode_from (cp * 64 + unat (b AND 0x3F)) (needed - 1) 0x80 0xBF bs)"
  by pat_completeness auto
termination
  by (relation "measure (\<lambda>(cp, needed, lo, hi, bs). 2 * length bs + (if needed = 0 then 0 else 1))")
     auto

definition utf8_decode :: "byte list \<Rightarrow> ustring" where
  "utf8_decode bs = utf8_decode_from 0 0 0x80 0xBF bs"

text \<open>
  The UTF-8 encoding of a string, as \<^verbatim>\<open>hash.update(string)\<close> and
  \<^verbatim>\<open>fs.writeFile(path, string)\<close> produce it. A JavaScript string can hold a lone surrogate,
  which is written as U+FFFD.
\<close>

definition utf8_encode_char :: "nat \<Rightarrow> byte list" where
  "utf8_encode_char cp =
    (if cp < 0x80 then [of_nat cp]
     else if cp < 0x800 then [of_nat (0xC0 + cp div 64), of_nat (0x80 + cp mod 64)]
     else if 0xD800 \<le> cp \<and> cp \<le> 0xDFFF then [0xEF, 0xBF, 0xBD]
     else if cp < 0x10000 then
       [of_nat (0xE0 + cp div 4096), of_nat (0x80 + cp div 64 mod 64), of_nat (0x80 + cp mod 64)]
     else
       [of_nat (0xF0 + cp div 262144), of_nat (0x80 + cp div 4096 mod 64),
        of_nat (0x80 + cp div 64 mod 64), of_nat (0x80 + cp mod 64)])"

definition utf8_encode :: "ustring \<Rightarrow> byte list" where
  "utf8_encode t = concat (map utf8_encode_char t)"

text \<open>
  Unicode scalar values: the code points that well-formed UTF-8 encodes.
\<close>

definition scalar_value :: "nat \<Rightarrow> bool" where
  "scalar_value cp = (cp < 0x110000 \<and> \<not> (0xD800 \<le> cp \<and> cp \<le> 0xDFFF))"

definition readFile_utf8 :: "fsnode \<Rightarrow> path \<Rightarrow> error + ustring" where
  "readFile_utf8 root p =
     (case resolve root p of
        Some (File (Some bs)) \<Rightarrow> Inr (utf8_decode bs)
      | _ \<Rightarrow> Inl (ReadFailed p))"

section \<open>Knowledge sink\<close>

text \<open>
  The \<^verbatim>\<open>content\<close> of a stored document. A document written by another client may have no
  \<^verbatim>\<open>hash\<close> entry.
\<close>

record document =
  doc_text :: ustring
  doc_hash :: "string option"
  doc_source :: string
  doc_path :: string
  doc_repo :: string
  doc_owner :: string

text \<open>
  The sink: the stored documents by identifier, and the identifiers passed to
  \<^verbatim>\<open>knowledge.set\<close>, oldest first.
\<close>

record 'u sink =
  documents :: "'u \<Rightarrow> document option"
  upserts :: "'u list"

definition getMemoryById :: "'u sink \<Rightarrow> 'u \<Rightarrow> document option" where
  "getMemoryById s i = documents s i"

text \<open>
  Modelled from the spec: \<^verbatim>\<open>knowledge.set\<close> belongs to \<^verbatim>\<open>@elizaos/core\<close>, which is not
  part of this repository. The spec's KnowledgeSink contract is an upsert keyed by the
  identifier, read back by \<^verbatim>\<open>getByIdentifier\<close>.
\<close>

definition knowledge_set :: "'u \<Rightarrow> document \<Rightarrow> 'u sink \<Rightarrow> 'u sink" where
  "knowledge_set i d s = s\<lparr> documents := (documents s)(i \<mapsto> d), upserts := upserts s @ [i] \<rparr>"

section \<open>Change detection (client.ts: createMemoriesFromFiles)\<close>

text \<open>The string handed to \<^verbatim>\<open>stringToUuid\<close>.\<close>

definition knowledge_key :: "string \<Rightarrow> string \<Rightarrow> string \<Rightarrow> string" where
  "knowledge_key owner repo relativePath =
     ''github-'' @ owner @ ''-'' @ repo @ ''-'' @ relativePath"

definition searchBase :: "path \<Rightarrow> github_config \<Rightarrow> path" where
  "searchBase wd cfg =
     (if cfg_path cfg \<noteq> [] then path_join (repoPath wd cfg) [cfg_path cfg]
      else repoPath wd cfg)"

text \<open>
  The body of the \<^verbatim>\<open>for (const file of files)\<close> loop. \<open>sha256_hex\<close> stands for
  \<^verbatim>\<open>createHash("sha256") ... digest("hex")\<close> and \<open>stringToUuid\<close> for the function of that
  name of \<^verbatim>\<open>@elizaos/core\<close>. A failing read rejects, which leaves the loop.
\<close>

definition process_file ::
  "(byte list \<Rightarrow> string) \<Rightarrow> (string \<Rightarrow> 'u) \<Rightarrow> fsnode \<Rightarrow> path \<Rightarrow> github_config
     \<Rightarrow> path \<Rightarrow> 'u sink \<Rightarrow> error + 'u sink" where
  "process_file sha256_hex stringToUuid root wd cfg file s =
    (let relativePath = path_relative (repoPath wd cfg) file in
     case readFile_utf8 root file of
       Inl err \<Rightarrow> Inl err
     | Inr content \<Rightarrow>
         let contentHash = sha256_hex (utf8_encode content);
             knowledgeId = stringToUuid (knowledge_key (cfg_owner cfg) (cfg_repo cfg) relativePath)
         in (case getMemoryById s knowledgeId of
               Some existingDocument \<Rightarrow>
                 if doc_hash existingDocument = Some contentHash then Inr s
                 else Inr (knowledge_set knowledgeId
                            \<lparr> doc_text = content, doc_hash = Some contentHash,
                              doc_source = ''github'', doc_path = relativePath,
                              doc_repo = cfg_repo cfg, doc_owner = cfg_owner cfg \<rparr> s)
             | None \<Rightarrow>
                 Inr (knowledge_set knowledgeId
                       \<lparr> doc_text = content, doc_hash = Some contentHash,
                         doc_source = ''github'', doc_path = relativePath,
                         doc_repo = cfg_repo cfg, doc_owner = cfg_owner cfg \<rparr> s)))"

text \<open>
  The loop: the first rejection ends it, and what was stored before stays stored.
\<close>

fun for_each_file :: "(path \<Rightarrow> 'u sink \<Rightarrow> error + 'u sink) \<Rightarrow> path list \<Rightarrow> 'u sink \<Rightarrow> error option \<times> 'u sink" where
  "for_each_file body [] s = (None, s)"
| "for_each_file body (file # files) s =
     (case body file s of
        Inl err \<Rightarrow> (Some err, s)
      | Inr s' \<Rightarrow> for_each_file body files s')"

text \<open>The \<^verbatim>\<open>files\<close> of the scan: what \<^verbatim>\<open>glob(searchPath, { nodir: true })\<close> lists.\<close>

definition scanned_files :: "fsnode \<Rightarrow> path \<Rightarrow> github_config \<Rightarrow> path list" where
  "scanned_files root wd cfg = glob_nodir root (searchBase wd cfg)"

definition createMemoriesFromFiles ::
  "(byte list \<Rightarrow> string) \<Rightarrow> (string \<Rightarrow> 'u) \<Rightarrow> fsnode \<Rightarrow> path \<Rightarrow> github_config
     \<Rightarrow> 'u sink \<Rightarrow> error option \<times> 'u sink" where
  "createMemoriesFromFiles sha256_hex stringToUuid root wd cfg s =
     for_each_file (process_file sha256_hex stringToUuid root wd cfg)
       (scanned_files root wd cfg) s"

subsection \<open>Notions used to state the properties of the scan\<close>

text \<open>The identifier of a listed file, and the fingerprint the scan computes for it
  (\<open>None\<close> when the file cannot be read).\<close>

definition knowledgeId :: "(string \<Rightarrow> 'u) \<Rightarrow> path \<Rightarrow> github_config \<Rightarrow> path \<Rightarrow> 'u" where
  "knowledgeId stringToUuid wd cfg file =
     stringToUuid (knowledge_key (cfg_owner cfg) (cfg_repo cfg)
                     (path_relative (repoPath wd cfg) file))"

text \<open>The bytes that reach the hash for a file with the given raw bytes.\<close>

definition hashed_bytes :: "byte list \<Rightarrow> byte list" where
  "hashed_bytes bs = utf8_encode (utf8_decode bs)"

definition fingerprint :: "(byte list \<Rightarrow> string) \<Rightarrow> fsnode \<Rightarrow> path \<Rightarrow> string option" where
  "fingerprint sha256_hex root file =
     (case resolve root file of
        Some (File (Some bs)) \<Rightarrow> Some (sha256_hex (hashed_bytes bs))
      | _ \<Rightarrow> None)"

text \<open>A file is up to date in a sink when it is readable and the document stored under
  its identifier carries its fingerprint.\<close>

definition up_to_date ::
  "(byte list \<Rightarrow> string) \<Rightarrow> (string \<Rightarrow> 'u) \<Rightarrow> fsnode \<Rightarrow> path \<Rightarrow> github_config
     \<Rightarrow> 'u sink \<Rightarrow> path \<Rightarrow> bool" where
  "up_to_date sha256_hex stringToUuid root wd cfg s file =
     (case fingerprint sha256_hex root file of
        None \<Rightarrow> False
      | Some h \<Rightarrow>
          (case documents s (knowledgeId stringToUuid wd cfg file) of
             None \<Rightarrow> False
           | Some d \<Rightarrow> doc_hash d = Some h))"

text \<open>The document the scan stores for a readable file.\<close>

definition document_for ::
  "(byte list \<Rightarrow> string) \<Rightarrow> fsnode \<Rightarrow> path \<Rightarrow> github_config \<Rightarrow> path \<Rightarrow> document" where
  "document_for sha256_hex root wd cfg file =
     (case resolve root file of
        Some (File (Some bs)) \<Rightarrow>
          \<lparr> doc_text = utf8_decode bs, doc_hash = Some (sha256_hex (hashed_bytes bs)),
            doc_source = ''github'', doc_path = path_relative (repoPath wd cfg) file,
            doc_repo = cfg_repo cfg, doc_owner = cfg_owner cfg \<rparr>
      | _ \<Rightarrow> \<lparr> doc_text = [], doc_hash = None, doc_source = [], doc_path = [],
              doc_repo = [], doc_owner = [] \<rparr>)"

section \<open>Write-back (client.ts: createCommit, createPullRequest)\<close>

text \<open>
  \<^verbatim>\<open>fs.mkdir(dir, { recursive: true })\<close>: creates the missing directories along the path and
  accepts the ones that exist; it fails where a file stands in the way.
\<close>

fun mkdir_p :: "path \<Rightarrow> fsnode \<Rightarrow> fsnode option" where
  "mkdir_p p (File c) = None"
| "mkdir_p [] (Dir es) = Some (Dir es)"
| "mkdir_p (s # ss) (Dir es) =
     (case mkdir_p ss (case map_of es s of None \<Rightarrow> Dir [] | Some n \<Rightarrow> n) of
        None \<Rightarrow> None
      | Some n' \<Rightarrow> Some (Dir (AList.update s n' es)))"

text \<open>
  \<^verbatim>\<open>fs.writeFile(path, bytes)\<close>: replaces or creates the file in an existing directory; it
  fails on a directory and below a missing directory or a file.
\<close>

fun write_file :: "path \<Rightarrow> byte list \<Rightarrow> fsnode \<Rightarrow> fsnode option" where
  "write_file p bs (File c) = None"
| "write_file [] bs (Dir es) = None"
| "write_file [s] bs (Dir es) =
     (case map_of es s of
        Some (Dir ds) \<Rightarrow> None
      | _ \<Rightarrow> Some (Dir (AList.update s (File (Some bs)) es)))"
| "write_file (s # ss) bs (Dir es) =
     (case map_of es s of
        None \<Rightarrow> None
      | Some n \<Rightarrow>
          (case write_file ss bs n of
             None \<Rightarrow> None
           | Some n' \<Rightarrow> Some (Dir (AList.update s n' es))))"

text \<open>An edit is \<^verbatim>\<open>{ path, content }\<close>.\<close>

type_synonym edit = "string \<times> ustring"

text \<open>
  \<^verbatim>\<open>path.join\<close> keeps the slash at the end of a path, and a path that ends in a slash
  cannot be written as a file.
\<close>

definition trailing_slash :: "string \<Rightarrow> bool" where
  "trailing_slash s = (s \<noteq> [] \<and> last s = CHR ''/'')"

text \<open>
  The body of the \<^verbatim>\<open>for (const file of files)\<close> loop of both operations: the outcome,
  and the file system it leaves. The directories made stay when the write fails.
\<close>

definition write_edit :: "path \<Rightarrow> edit \<Rightarrow> fsnode \<Rightarrow> error option \<times> fsnode" where
  "write_edit rp file root =
    (let filePath = path_join rp [fst file] in
     case mkdir_p (butlast filePath) root of
       None \<Rightarrow> (Some (MkdirFailed (butlast filePath)), root)
     | Some root' \<Rightarrow>
         if trailing_slash (fst file) then (Some (WriteFailed filePath), root')
         else (case write_file filePath (utf8_encode (snd file)) root' of
                 None \<Rightarrow> (Some (WriteFailed filePath), root')
               | Some root'' \<Rightarrow> (None, root'')))"

text \<open>The loop: a failing write ends it, and what was written before stays written.\<close>

fun write_edits :: "path \<Rightarrow> edit list \<Rightarrow> fsnode \<Rightarrow> error option \<times> fsnode" where
  "write_edits rp [] root = (None, root)"
| "write_edits rp (file # files) root =
     (case write_edit rp file root of
        (Some err, root') \<Rightarrow> (Some err, root')
      | (None, root') \<Rightarrow> write_edits rp files root')"














subsection \<open>Notions used to state the properties of write-back\<close>






section \<open>Example data\<close>

text \<open>The configuration of the spec's scenario, and settings with and without a path.\<close>

definition acme_docs :: github_config where
  "acme_docs = \<lparr> cfg_owner = ''acme'', cfg_repo = ''docs'', cfg_branch = ''main'',
                 cfg_path = ''guides'', cfg_token = ''secret'' \<rparr>"

definition settings_complete :: runtime_settings where
  "settings_complete key =
     (if key = ''GITHUB_OWNER'' then Str ''acme''
      else if key = ''GITHUB_REPO'' then Str ''docs''
      else if key = ''GITHUB_BRANCH'' then Str ''main''
      else if key = ''GITHUB_PATH'' then Str ''guides''
      else if key = ''GITHUB_API_TOKEN'' then Str ''secret''
      else Undefined)"

definition settings_without_path :: runtime_settings where
  "settings_without_path key =
     (if key = ''GITHUB_OWNER'' then Str ''acme''
      else if key = ''GITHUB_REPO'' then Str ''docs''
      else if key = ''GITHUB_BRANCH'' then Str ''main''
      else if key = ''GITHUB_PATH'' then Str []
      else if key = ''GITHUB_API_TOKEN'' then Str ''secret''
      else Undefined)"

text \<open>Remotes: one that answers the third clone attempt, one that never answers.\<close>

definition third_attempt :: "nat \<Rightarrow> bool" where
  "third_attempt k = (k = 2)"

definition never :: "nat \<Rightarrow> bool" where
  "never k = False"

definition any_branch :: "string \<Rightarrow> bool" where
  "any_branch b = True"

definition agent_dir :: path where
  "agent_dir = [''srv'', ''agent'']"

definition env_flaky :: env where
  "env_flaky = \<lparr> cwd = agent_dir, mkdir_ok = True, mirror_exists = False,
                  clone_ok = third_attempt, pull_ok = True, checkout_ok = any_branch \<rparr>"

definition env_down :: env where
  "env_down = \<lparr> cwd = agent_dir, mkdir_ok = True, mirror_exists = False,
                 clone_ok = never, pull_ok = True, checkout_ok = any_branch \<rparr>"

definition env_stale :: env where
  "env_stale = \<lparr> cwd = agent_dir, mkdir_ok = True, mirror_exists = True,
                  clone_ok = never, pull_ok = False, checkout_ok = any_branch \<rparr>"

text \<open>
  File systems that hold the mirror of \<^verbatim>\<open>acme/docs\<close> below the agent's directory, with
  the given content of \<^verbatim>\<open>guides\<close>.
\<close>

definition mirror_of :: "(string \<times> fsnode) list \<Rightarrow> fsnode" where
  "mirror_of guides =
     Dir [(''srv'', Dir [(''agent'', Dir [(''.repos'', Dir [(''acme'', Dir [(''docs'',
       Dir [(''.git'', Dir [(''HEAD'', File (Some [0x72]))]),
            (''README.md'', File (Some [0x52])),
            (''guides'', Dir guides)])])])])])]"

definition guides_tree :: fsnode where
  "guides_tree = mirror_of
     [(''a.md'', File (Some [0x41, 0x32])), (''b.md'', File (Some [0x42])),
      (''c.md'', File (Some [0x43])), (''.draft.md'', File (Some [0x44]))]"

definition locked_tree :: fsnode where
  "locked_tree = mirror_of [(''a.md'', File None), (''c.md'', File (Some [0x43]))]"

definition half_locked_tree :: fsnode where
  "half_locked_tree = mirror_of
     [(''a.md'', File (Some [0x41])), (''b.md'', File None), (''c.md'', File (Some [0x43]))]"

text \<open>
  The mirror of the scenario with one more file, listed first, that cannot be read.
\<close>

definition blocked_tree :: fsnode where
  "blocked_tree = mirror_of
     [(''0.md'', File None), (''a.md'', File (Some [0x41, 0x32])), (''b.md'', File (Some [0x42])),
      (''c.md'', File (Some [0x43]))]"

definition binary_tree :: fsnode where
  "binary_tree = mirror_of [(''x.bin'', File (Some [0xFF])), (''y.bin'', File (Some [0xFE]))]"

definition guide :: "string \<Rightarrow> path" where
  "guide name = [''srv'', ''agent'', ''.repos'', ''acme'', ''docs'', ''guides'', name]"

text \<open>
  A stand-in for the digest that has no collisions at all (it spells the bytes out), and
  one for \<^verbatim>\<open>stringToUuid\<close> that has none either.
\<close>

definition byte_digest :: "byte list \<Rightarrow> string" where
  "byte_digest bs = map (\<lambda>b. char_of (unat b)) bs"

definition same_string :: "string \<Rightarrow> string" where
  "same_string s = s"

text \<open>
  The sink of the spec's scenario: \<^verbatim>\<open>guides/a.md\<close> recorded with an older content,
  \<^verbatim>\<open>guides/b.md\<close> with its present one, \<^verbatim>\<open>guides/c.md\<close> not recorded.
\<close>

definition github_document :: "string \<Rightarrow> byte list \<Rightarrow> document" where
  "github_document rel bs =
     \<lparr> doc_text = utf8_decode bs, doc_hash = Some (byte_digest (hashed_bytes bs)),
       doc_source = ''github'', doc_path = rel, doc_repo = ''docs'', doc_owner = ''acme'' \<rparr>"

definition recorded_sink :: "string sink" where
  "recorded_sink =
     \<lparr> documents = map_of
         [(''github-acme-docs-guides/a.md'', github_document ''guides/a.md'' [0x41]),
          (''github-acme-docs-guides/b.md'', github_document ''guides/b.md'' [0x42])],
       upserts = [] \<rparr>"

definition empty_sink :: "string sink" where
  "empty_sink = \<lparr> documents = Map.empty, upserts = [] \<rparr>"











section \<open>Properties\<close>

subsection \<open>Facts about the example data\<close>

lemma repoPath_acme:
  "repoPath agent_dir acme_docs = [''srv'', ''agent'', ''.repos'', ''acme'', ''docs'']"
  by (simp add: agent_dir_def acme_docs_def repoPath_def path_join_def normalize_def
        normalize_step_def split_slash_def)

lemma searchBase_acme:
  "searchBase agent_dir acme_docs = [''srv'', ''agent'', ''.repos'', ''acme'', ''docs'', ''guides'']"
  by (simp add: searchBase_def repoPath_acme)
     (simp add: acme_docs_def path_join_def normalize_def normalize_step_def split_slash_def)

subsection \<open>Clone with retries\<close>

lemma cloneRepository_unfolded:
  "cloneRepository e cfg =
    (let c = GitClone (repositoryUrl cfg) (repoPath (cwd e) cfg) in
     if clone_ok e 0 then (Inr (), [c])
     else if clone_ok e 1 then (Inr (), [c, c])
     else if clone_ok e 2 then (Inr (), [c, c, c])
     else (Inl (clone_error cfg), [c, c, c]))"
proof -
  have 2: "cloneRepository_loop e cfg 2 =
     (if clone_ok e 2 then (Inr (), [GitClone (repositoryUrl cfg) (repoPath (cwd e) cfg)])
      else (Inl (clone_error cfg), [GitClone (repositoryUrl cfg) (repoPath (cwd e) cfg)]))"
    by (subst cloneRepository_loop.simps) (simp add: maxRetries_def)
  have 1: "cloneRepository_loop e cfg (Suc 0) =
     (if clone_ok e 1 then (Inr (), [GitClone (repositoryUrl cfg) (repoPath (cwd e) cfg)])
      else (case cloneRepository_loop e cfg 2 of
              (r, cs) \<Rightarrow> (r, GitClone (repositoryUrl cfg) (repoPath (cwd e) cfg) # cs)))"
    by (subst cloneRepository_loop.simps) (simp add: maxRetries_def numeral_2_eq_2)
  have 0: "cloneRepository_loop e cfg 0 =
     (if clone_ok e 0 then (Inr (), [GitClone (repositoryUrl cfg) (repoPath (cwd e) cfg)])
      else (case cloneRepository_loop e cfg (Suc 0) of
              (r, cs) \<Rightarrow> (r, GitClone (repositoryUrl cfg) (repoPath (cwd e) cfg) # cs)))"
    by (subst cloneRepository_loop.simps) (simp add: maxRetries_def)
  show ?thesis
    unfolding cloneRepository_def 0 1 2 by (simp add: Let_def)
qed

lemma clone_attempts_cloneRepository: "clone_attempts (snd (cloneRepository e cfg)) \<le> 3"
  by (simp add: cloneRepository_unfolded clone_attempts_def Let_def)

lemma clone_attempts_checkout [simp]: "clone_attempts (snd (checkout_branch e cfg)) = 0"
  by (simp add: checkout_branch_def clone_attempts_def)

lemma clone_attempts_append [simp]:
  "clone_attempts (xs @ ys) = clone_attempts xs + clone_attempts ys"
  by (simp add: clone_attempts_def)

lemma clone_attempts_Mkdir [simp]: "clone_attempts (Mkdir p # xs) = clone_attempts xs"
  by (simp add: clone_attempts_def)

lemma clone_attempts_GitClone [simp]:
  "clone_attempts (GitClone u p # xs) = Suc (clone_attempts xs)"
  by (simp add: clone_attempts_def)

lemma clone_attempts_Nil [simp]: "clone_attempts [] = 0"
  by (simp add: clone_attempts_def)

lemma initialize_without_mirror:
  "mkdir_ok e \<Longrightarrow> \<not> mirror_exists e \<Longrightarrow>
   initialize e cfg =
     (case cloneRepository e cfg of
        (Inl err, cs) \<Rightarrow> (Inl err, Mkdir (ownerDir (cwd e) cfg) # cs)
      | (Inr u, cs) \<Rightarrow>
          (fst (checkout_branch e cfg),
           Mkdir (ownerDir (cwd e) cfg) # cs @ snd (checkout_branch e cfg)))"
  by (simp add: initialize_def split: prod.splits sum.splits)

text \<open>
  C3. Without a mirror, \<^verbatim>\<open>initialize\<close> and \<^verbatim>\<open>cloneRepository\<close> make at most three clone
  attempts. When the first two attempts fail and the third succeeds, the clone succeeds
  after exactly three attempts (and \<^verbatim>\<open>initialize\<close> goes on to the checkout). When all
  three fail, the clone-exhausted error is raised after exactly three attempts.
\<close>

theorem clone_retry_at_most_three:
  "\<not> mirror_exists e \<longrightarrow>
     clone_attempts (snd (cloneRepository e cfg)) \<le> 3
   \<and> clone_attempts (snd (initialize e cfg)) \<le> 3
   \<and> (\<not> clone_ok e 0 \<and> \<not> clone_ok e 1 \<and> clone_ok e 2 \<longrightarrow>
        fst (cloneRepository e cfg) = Inr ()
      \<and> clone_attempts (snd (cloneRepository e cfg)) = 3
      \<and> (mkdir_ok e \<longrightarrow> clone_attempts (snd (initialize e cfg)) = 3
           \<and> fst (initialize e cfg) = fst (checkout_branch e cfg)))
   \<and> (\<not> clone_ok e 0 \<and> \<not> clone_ok e 1 \<and> \<not> clone_ok e 2 \<longrightarrow>
        fst (cloneRepository e cfg) = Inl (clone_error cfg)
      \<and> clone_attempts (snd (cloneRepository e cfg)) = 3
      \<and> (mkdir_ok e \<longrightarrow> clone_attempts (snd (initialize e cfg)) = 3
           \<and> fst (initialize e cfg) = Inl (clone_error cfg)))"
proof (intro impI conjI)
  show "clone_attempts (snd (cloneRepository e cfg)) \<le> 3"
    by (rule clone_attempts_cloneRepository)
next
  assume nm: "\<not> mirror_exists e"
  show "clone_attempts (snd (initialize e cfg)) \<le> 3"
  proof (cases "mkdir_ok e")
    case False
    then show ?thesis by (simp add: initialize_def clone_attempts_def)
  next
    case True
    from clone_attempts_cloneRepository [of e cfg] show ?thesis
      by (auto simp: initialize_without_mirror [OF True nm] split: prod.splits sum.splits)
  qed
next
  assume "\<not> clone_ok e 0 \<and> \<not> clone_ok e 1 \<and> clone_ok e 2"
  then show "fst (cloneRepository e cfg) = Inr ()"
    by (simp add: cloneRepository_unfolded Let_def)
next
  assume "\<not> clone_ok e 0 \<and> \<not> clone_ok e 1 \<and> clone_ok e 2"
  then show "clone_attempts (snd (cloneRepository e cfg)) = 3"
    by (simp add: cloneRepository_unfolded Let_def clone_attempts_def)
next
  assume nm: "\<not> mirror_exists e" and "\<not> clone_ok e 0 \<and> \<not> clone_ok e 1 \<and> clone_ok e 2"
    and mk: "mkdir_ok e"
  then show "clone_attempts (snd (initialize e cfg)) = 3"
    by (simp add: initialize_without_mirror [OF mk nm] cloneRepository_unfolded Let_def)
next
  assume nm: "\<not> mirror_exists e" and "\<not> clone_ok e 0 \<and> \<not> clone_ok e 1 \<and> clone_ok e 2"
    and mk: "mkdir_ok e"
  then show "fst (initialize e cfg) = fst (checkout_branch e cfg)"
    by (simp add: initialize_without_mirror [OF mk nm] cloneRepository_unfolded Let_def)
next
  assume "\<not> clone_ok e 0 \<and> \<not> clone_ok e 1 \<and> \<not> clone_ok e 2"
  then show "fst (cloneRepository e cfg) = Inl (clone_error cfg)"
    by (simp add: cloneRepository_unfolded Let_def)
next
  assume "\<not> clone_ok e 0 \<and> \<not> clone_ok e 1 \<and> \<not> clone_ok e 2"
  then show "clone_attempts (snd (cloneRepository e cfg)) = 3"
    by (simp add: cloneRepository_unfolded Let_def clone_attempts_def)
next
  assume nm: "\<not> mirror_exists e" and "\<not> clone_ok e 0 \<and> \<not> clone_ok e 1 \<and> \<not> clone_ok e 2"
    and mk: "mkdir_ok e"
  then show "clone_attempts (snd (initialize e cfg)) = 3"
    by (simp add: initialize_without_mirror [OF mk nm] cloneRepository_unfolded Let_def)
next
  assume nm: "\<not> mirror_exists e" and "\<not> clone_ok e 0 \<and> \<not> clone_ok e 1 \<and> \<not> clone_ok e 2"
    and mk: "mkdir_ok e"
  then show "fst (initialize e cfg) = Inl (clone_error cfg)"
    by (simp add: initialize_without_mirror [OF mk nm] cloneRepository_unfolded Let_def)
qed

theorem clone_retry_at_most_three_witness:
  "\<not> mirror_exists env_flaky
   \<and> fst (initialize env_flaky acme_docs) = Inr ()
   \<and> clone_attempts (snd (initialize env_flaky acme_docs)) = 3
   \<and> \<not> mirror_exists env_down
   \<and> fst (initialize env_down acme_docs) = Inl (clone_error acme_docs)
   \<and> clone_attempts (snd (initialize env_down acme_docs)) = 3"
  using clone_retry_at_most_three [of env_flaky acme_docs]
        clone_retry_at_most_three [of env_down acme_docs]
  by (simp add: env_flaky_def env_down_def third_attempt_def never_def any_branch_def
        checkout_branch_def acme_docs_def)

subsection \<open>Pull of an existing mirror\<close>

text \<open>
  C7. When the mirror exists, \<^verbatim>\<open>initialize\<close> attempts no clone and pulls at most once,
  exactly once when the directory of the owner could be made; when that pull fails, its
  error is the result and nothing is called after it: no second pull, no checkout.
\<close>

theorem existing_mirror_pulls_once:
  "mirror_exists e \<longrightarrow>
     clone_attempts (snd (initialize e cfg)) = 0
   \<and> pulls (snd (initialize e cfg)) \<le> 1
   \<and> (mkdir_ok e \<longrightarrow> pulls (snd (initialize e cfg)) = 1)
   \<and> (mkdir_ok e \<and> \<not> pull_ok e \<longrightarrow>
        initialize e cfg =
          (Inl (PullFailed (repoPath (cwd e) cfg)),
           [Mkdir (ownerDir (cwd e) cfg), GitPull (repoPath (cwd e) cfg)]))"
  by (simp add: initialize_def checkout_branch_def clone_attempts_def pulls_def split: prod.splits)

theorem existing_mirror_pulls_once_witness:
  "mirror_exists env_stale
   \<and> clone_attempts (snd (initialize env_stale acme_docs)) = 0
   \<and> pulls (snd (initialize env_stale acme_docs)) = 1
   \<and> fst (initialize env_stale acme_docs) =
       Inl (PullFailed [''srv'', ''agent'', ''.repos'', ''acme'', ''docs''])"
proof -
  have e: "mirror_exists env_stale" "mkdir_ok env_stale" "\<not> pull_ok env_stale"
    "cwd env_stale = agent_dir"
    by (simp_all add: env_stale_def)
  from existing_mirror_pulls_once [of env_stale acme_docs] e show ?thesis
    by (simp add: repoPath_acme clone_attempts_def pulls_def)
qed

subsection \<open>Configuration validation\<close>

lemma schema_issues_empty_iff:
  "schema_issues getSetting = [] \<longleftrightarrow>
     nonempty_string (getSetting ''GITHUB_OWNER'')
   \<and> nonempty_string (getSetting ''GITHUB_REPO'')
   \<and> nonempty_string (getSetting ''GITHUB_BRANCH'')
   \<and> nonempty_string (getSetting ''GITHUB_PATH'')
   \<and> nonempty_string (getSetting ''GITHUB_API_TOKEN'')"
proof -
  have one: "(case z_string_min1 msg v of None \<Rightarrow> [] | Some m \<Rightarrow> [k @ '': '' @ m]) = []
                \<longleftrightarrow> nonempty_string v" for k msg v
    by (cases v) (simp_all add: nonempty_string_def)
  show ?thesis
    by (simp add: schema_issues_def githubEnvSchema_def one)
qed

text \<open>
  C8, as the code has it. Validation accepts the settings exactly when all five of owner,
  repo, branch, path and token are non-empty strings: the path is required like the other
  four.
\<close>

theorem validation_requires_all_five:
  "accepts getSetting \<longleftrightarrow>
     nonempty_string (getSetting ''GITHUB_OWNER'')
   \<and> nonempty_string (getSetting ''GITHUB_REPO'')
   \<and> nonempty_string (getSetting ''GITHUB_BRANCH'')
   \<and> nonempty_string (getSetting ''GITHUB_PATH'')
   \<and> nonempty_string (getSetting ''GITHUB_API_TOKEN'')"
  unfolding schema_issues_empty_iff [symmetric]
  by (simp add: accepts_def validateGithubConfig_def split: list.splits)

theorem validation_requires_all_five_witness:
  "accepts settings_complete \<and> \<not> accepts settings_without_path"
  using validation_requires_all_five [of settings_complete]
        validation_requires_all_five [of settings_without_path]
  by (simp add: settings_complete_def settings_without_path_def nonempty_string_def)

text \<open>
  C8 as stated fails: settings with a non-empty owner, repo, branch and token and an empty
  path are rejected, with the message of the path.
\<close>

theorem empty_path_rejected:
  "nonempty_string (settings_without_path ''GITHUB_OWNER'')
   \<and> nonempty_string (settings_without_path ''GITHUB_REPO'')
   \<and> nonempty_string (settings_without_path ''GITHUB_BRANCH'')
   \<and> nonempty_string (settings_without_path ''GITHUB_API_TOKEN'')
   \<and> settings_without_path ''GITHUB_PATH'' = Str []
   \<and> validateGithubConfig settings_without_path =
       Inl (''GitHub configuration validation failed:'' @ [CHR 0x0A]
            @ ''GITHUB_PATH: GitHub path is required'')"
  by (simp add: settings_without_path_def nonempty_string_def validateGithubConfig_def
        schema_issues_def githubEnvSchema_def)

subsection \<open>Knowledge identifiers\<close>

text \<open>
  C9. The string from which the identifier is made is an unescaped concatenation, so the
  identifier is not an injective function of owner, repo and relative path: owner \<^verbatim>\<open>a\<close>
  with repo \<^verbatim>\<open>b-c\<close> and owner \<^verbatim>\<open>a-b\<close> with repo \<^verbatim>\<open>c\<close> get the same identifier for
  every relative path, whatever \<^verbatim>\<open>stringToUuid\<close> is, and a document stored for the one is
  the document found for the other.
\<close>

theorem knowledge_id_not_injective:
  "knowledge_key ''a'' ''b-c'' rel = knowledge_key ''a-b'' ''c'' rel
   \<and> (''a'', ''b-c'', rel) \<noteq> (''a-b'', ''c'', rel)
   \<and> stringToUuid (knowledge_key ''a'' ''b-c'' rel) = stringToUuid (knowledge_key ''a-b'' ''c'' rel)
   \<and> \<not> inj (\<lambda>(owner, repo, relativePath). stringToUuid (knowledge_key owner repo relativePath))
   \<and> getMemoryById (knowledge_set (stringToUuid (knowledge_key ''a'' ''b-c'' rel)) d s)
        (stringToUuid (knowledge_key ''a-b'' ''c'' rel)) = Some d"
proof -
  have k: "knowledge_key ''a'' ''b-c'' rel = knowledge_key ''a-b'' ''c'' rel"
    by (simp add: knowledge_key_def)
  have "\<not> inj (\<lambda>(owner, repo, relativePath). stringToUuid (knowledge_key owner repo relativePath))"
  proof
    assume "inj (\<lambda>(owner, repo, relativePath). stringToUuid (knowledge_key owner repo relativePath))"
    from injD [OF this, of "(''a'', ''b-c'', rel)" "(''a-b'', ''c'', rel)"] k
    show False by simp
  qed
  with k show ?thesis
    by (simp add: getMemoryById_def knowledge_set_def)
qed

subsection \<open>The scan loop\<close>

lemma process_file_unreadable:
  "fingerprint sha root file = None \<Longrightarrow>
   process_file sha uuid root wd cfg file s = Inl (ReadFailed file)"
  by (auto simp: fingerprint_def process_file_def readFile_utf8_def Let_def
           split: option.splits fsnode.splits)

lemma process_file_up_to_date:
  "up_to_date sha uuid root wd cfg s file \<Longrightarrow>
   process_file sha uuid root wd cfg file s = Inr s"
  by (auto simp: up_to_date_def fingerprint_def process_file_def readFile_utf8_def Let_def
                 knowledgeId_def getMemoryById_def hashed_bytes_def
           split: option.splits fsnode.splits)

lemma process_file_changed:
  "fingerprint sha root file \<noteq> None \<Longrightarrow> \<not> up_to_date sha uuid root wd cfg s file \<Longrightarrow>
   process_file sha uuid root wd cfg file s =
     Inr (knowledge_set (knowledgeId uuid wd cfg file) (document_for sha root wd cfg file) s)"
  by (auto simp: up_to_date_def fingerprint_def process_file_def readFile_utf8_def Let_def
                 knowledgeId_def getMemoryById_def hashed_bytes_def document_for_def
           split: option.splits fsnode.splits)

lemma doc_hash_document_for:
  "fingerprint sha root file \<noteq> None \<Longrightarrow>
   doc_hash (document_for sha root wd cfg file) = fingerprint sha root file"
  by (auto simp: fingerprint_def document_for_def split: option.splits fsnode.splits)

lemma up_to_date_cong:
  "documents s' (knowledgeId uuid wd cfg file) = documents s (knowledgeId uuid wd cfg file) \<Longrightarrow>
   up_to_date sha uuid root wd cfg s' file = up_to_date sha uuid root wd cfg s file"
  unfolding up_to_date_def by (simp split: option.splits)

lemma up_to_date_after_set:
  "fingerprint sha root file \<noteq> None \<Longrightarrow>
   up_to_date sha uuid root wd cfg
     (knowledge_set (knowledgeId uuid wd cfg file) (document_for sha root wd cfg file) s) file"
  by (auto simp: up_to_date_def knowledge_set_def doc_hash_document_for)

text \<open>The run over a list of readable files with distinct identifiers.\<close>

lemma scan_readable:
  assumes "distinct (map (knowledgeId uuid wd cfg) files)"
    and "\<forall>f\<in>set files. fingerprint sha root f \<noteq> None"
  shows "\<exists>s'. for_each_file (process_file sha uuid root wd cfg) files s = (None, s')
     \<and> upserts s' = upserts s @ map (knowledgeId uuid wd cfg)
                                   (filter (\<lambda>f. \<not> up_to_date sha uuid root wd cfg s f) files)
     \<and> (\<forall>i. i \<notin> knowledgeId uuid wd cfg ` {f \<in> set files. \<not> up_to_date sha uuid root wd cfg s f}
            \<longrightarrow> documents s' i = documents s i)
     \<and> (\<forall>f\<in>set files. up_to_date sha uuid root wd cfg s' f)"
  using assms
proof (induction files arbitrary: s)
  case Nil
  then show ?case by simp
next
  case (Cons f files)
  let ?id = "knowledgeId uuid wd cfg"
  let ?utd = "up_to_date sha uuid root wd cfg"
  let ?body = "process_file sha uuid root wd cfg"
  from Cons.prems have dist: "distinct (map ?id files)" and notin: "?id f \<notin> ?id ` set files"
    and rd: "\<forall>g\<in>set files. fingerprint sha root g \<noteq> None" and rf: "fingerprint sha root f \<noteq> None"
    by auto
  define s1 where "s1 = (if ?utd s f then s else knowledge_set (?id f) (document_for sha root wd cfg f) s)"
  have step: "?body f s = Inr s1"
    using rf by (simp add: s1_def process_file_up_to_date process_file_changed)
  have docs1: "\<And>i. i \<noteq> ?id f \<Longrightarrow> documents s1 i = documents s i"
    by (simp add: s1_def knowledge_set_def)
  have utd1: "\<And>g. g \<in> set files \<Longrightarrow> ?utd s1 g = ?utd s g"
  proof -
    fix g assume "g \<in> set files"
    with notin have "?id g \<noteq> ?id f" by (metis imageI)
    then show "?utd s1 g = ?utd s g" by (intro up_to_date_cong docs1)
  qed
  have utd1f: "?utd s1 f"
    using rf by (simp add: s1_def up_to_date_after_set)
  have ups1: "upserts s1 = upserts s @ (if ?utd s f then [] else [?id f])"
    by (simp add: s1_def knowledge_set_def)
  from Cons.IH [OF dist rd, of s1] obtain s' where
    run: "for_each_file ?body files s1 = (None, s')"
    and ups: "upserts s' = upserts s1 @ map ?id (filter (\<lambda>f. \<not> ?utd s1 f) files)"
    and docs: "\<forall>i. i \<notin> ?id ` {f \<in> set files. \<not> ?utd s1 f} \<longrightarrow> documents s' i = documents s1 i"
    and utd: "\<forall>f\<in>set files. ?utd s' f"
    by blast
  have filt: "filter (\<lambda>f. \<not> ?utd s1 f) files = filter (\<lambda>f. \<not> ?utd s f) files"
    using utd1 by (intro filter_cong) auto
  have "for_each_file ?body (f # files) s = (None, s')"
    using step run by simp
  moreover have "upserts s' = upserts s @ map ?id (filter (\<lambda>f. \<not> ?utd s f) (f # files))"
    using ups ups1 filt by simp
  moreover have "\<forall>i. i \<notin> ?id ` {g \<in> set (f # files). \<not> ?utd s g} \<longrightarrow> documents s' i = documents s i"
  proof (intro allI impI)
    fix i assume i: "i \<notin> ?id ` {g \<in> set (f # files). \<not> ?utd s g}"
    then have "i \<notin> ?id ` {g \<in> set files. \<not> ?utd s1 g}"
      using utd1 by auto
    with docs have a: "documents s' i = documents s1 i" by blast
    show "documents s' i = documents s i"
    proof (cases "?utd s f")
      case True
      then show ?thesis using a by (simp add: s1_def)
    next
      case False
      with i have "i \<noteq> ?id f" by auto
      then show ?thesis using a docs1 by simp
    qed
  qed
  moreover have "\<forall>g\<in>set (f # files). ?utd s' g"
  proof -
    have "?id f \<notin> ?id ` {g \<in> set files. \<not> ?utd s1 g}" using notin by auto
    with docs have "documents s' (?id f) = documents s1 (?id f)" by blast
    then have "?utd s' f" using utd1f up_to_date_cong by metis
    with utd show ?thesis by simp
  qed
  ultimately show ?case by blast
qed

text \<open>A run over up-to-date files changes nothing.\<close>

lemma scan_up_to_date:
  "\<forall>f\<in>set files. up_to_date sha uuid root wd cfg s f \<Longrightarrow>
   for_each_file (process_file sha uuid root wd cfg) files s = (None, s)"
  by (induction files) (simp_all add: process_file_up_to_date)

lemma for_each_file_append:
  "for_each_file body (xs @ ys) s =
     (case for_each_file body xs s of
        (Some err, s') \<Rightarrow> (Some err, s')
      | (None, s') \<Rightarrow> for_each_file body ys s')"
  by (induction xs arbitrary: s) (auto split: sum.splits)

text \<open>Every list of files splits at its first unreadable file.\<close>

lemma split_first_unreadable:
  "(\<forall>f\<in>set files. fingerprint sha root f \<noteq> None)
   \<or> (\<exists>pre f post. files = pre @ f # post \<and> (\<forall>g\<in>set pre. fingerprint sha root g \<noteq> None)
        \<and> fingerprint sha root f = None)"
proof (cases "\<forall>f\<in>set files. fingerprint sha root f \<noteq> None")
  case True then show ?thesis by simp
next
  case False
  then have "\<exists>x\<in>set files. fingerprint sha root x = None" by auto
  from split_list_first_prop [OF this] show ?thesis by blast
qed

lemma scan_stops_at_unreadable:
  assumes "\<forall>g\<in>set pre. fingerprint sha root g \<noteq> None" and "fingerprint sha root f = None"
  shows "for_each_file (process_file sha uuid root wd cfg) (pre @ f # post) s =
           (Some (ReadFailed f), snd (for_each_file (process_file sha uuid root wd cfg) pre s))"
proof -
  have "\<exists>s'. for_each_file (process_file sha uuid root wd cfg) pre s = (None, s')"
    using assms(1)
  proof (induction pre arbitrary: s)
    case Nil then show ?case by simp
  next
    case (Cons g pre)
    then have "fingerprint sha root g \<noteq> None" by simp
    then obtain s1 where "process_file sha uuid root wd cfg g s = Inr s1"
      by (cases "up_to_date sha uuid root wd cfg s g")
         (auto simp: process_file_up_to_date process_file_changed)
    with Cons show ?case by simp
  qed
  then obtain s' where "for_each_file (process_file sha uuid root wd cfg) pre s = (None, s')" ..
  then show ?thesis
    using assms(2) by (simp add: for_each_file_append process_file_unreadable)
qed

lemma rescan_fixpoint:
  assumes "distinct (map (knowledgeId uuid wd cfg) files)"
  shows "for_each_file (process_file sha uuid root wd cfg) files
           (snd (for_each_file (process_file sha uuid root wd cfg) files s))
         = for_each_file (process_file sha uuid root wd cfg) files s"
proof -
  let ?body = "process_file sha uuid root wd cfg"
  from split_first_unreadable [of files sha root] show ?thesis
  proof
    assume rd: "\<forall>f\<in>set files. fingerprint sha root f \<noteq> None"
    from scan_readable [OF assms rd, of s] obtain s' where
      run: "for_each_file ?body files s = (None, s')"
      and utd: "\<forall>f\<in>set files. up_to_date sha uuid root wd cfg s' f" by blast
    show ?thesis using run scan_up_to_date [OF utd] by simp
  next
    assume "\<exists>pre f post. files = pre @ f # post \<and> (\<forall>g\<in>set pre. fingerprint sha root g \<noteq> None)
        \<and> fingerprint sha root f = None"
    then obtain pre f post where files: "files = pre @ f # post"
      and rd: "\<forall>g\<in>set pre. fingerprint sha root g \<noteq> None"
      and un: "fingerprint sha root f = None" by blast
    from assms files have dist: "distinct (map (knowledgeId uuid wd cfg) pre)" by simp
    from scan_readable [OF dist rd, of s] obtain s' where
      run: "for_each_file ?body pre s = (None, s')"
      and utd: "\<forall>f\<in>set pre. up_to_date sha uuid root wd cfg s' f" by blast
    have 1: "for_each_file ?body files s = (Some (ReadFailed f), s')"
      using scan_stops_at_unreadable [OF rd un, of uuid wd cfg post s] run files by simp
    have 2: "for_each_file ?body files s' = (Some (ReadFailed f), s')"
      using scan_stops_at_unreadable [OF rd un, of uuid wd cfg post s'] scan_up_to_date [OF utd] files
      by simp
    show ?thesis using 1 2 by simp
  qed
qed

lemma scanned_guides:
  "scanned_files guides_tree agent_dir acme_docs = [guide ''a.md'', guide ''b.md'', guide ''c.md'']"
  by (simp add: scanned_files_def searchBase_acme glob_nodir_def guides_tree_def mirror_of_def
        dot_name_def guide_def)

lemma scanned_locked:
  "scanned_files locked_tree agent_dir acme_docs = [guide ''a.md'', guide ''c.md'']"
  by (simp add: scanned_files_def searchBase_acme glob_nodir_def locked_tree_def mirror_of_def
        dot_name_def guide_def)

lemma acme_docs_fields:
  "cfg_owner acme_docs = ''acme''" "cfg_repo acme_docs = ''docs''"
  by (simp_all add: acme_docs_def)

lemma knowledgeId_guide:
  "knowledgeId same_string agent_dir acme_docs (guide name) = ''github-acme-docs-guides/'' @ name"
  by (simp add: knowledgeId_def repoPath_acme guide_def path_relative_def knowledge_key_def
        same_string_def acme_docs_fields)

lemma fingerprint_guides:
  "fingerprint byte_digest guides_tree (guide ''a.md'') = Some (byte_digest [0x41, 0x32])"
  "fingerprint byte_digest guides_tree (guide ''b.md'') = Some (byte_digest [0x42])"
  "fingerprint byte_digest guides_tree (guide ''c.md'') = Some (byte_digest [0x43])"
  by (simp_all add: fingerprint_def guides_tree_def mirror_of_def guide_def hashed_bytes_def
        utf8_decode_def utf8_encode_def utf8_encode_char_def)

lemma fingerprint_locked:
  "fingerprint byte_digest locked_tree (guide ''a.md'') = None"
  "fingerprint byte_digest locked_tree (guide ''c.md'') = Some (byte_digest [0x43])"
  by (simp_all add: fingerprint_def locked_tree_def mirror_of_def guide_def hashed_bytes_def
        utf8_decode_def utf8_encode_def utf8_encode_char_def)

lemma up_to_date_recorded:
  "\<not> up_to_date byte_digest same_string guides_tree agent_dir acme_docs recorded_sink (guide ''a.md'')"
  "up_to_date byte_digest same_string guides_tree agent_dir acme_docs recorded_sink (guide ''b.md'')"
  "\<not> up_to_date byte_digest same_string guides_tree agent_dir acme_docs recorded_sink (guide ''c.md'')"
  by (simp_all add: up_to_date_def fingerprint_guides knowledgeId_guide recorded_sink_def
        github_document_def hashed_bytes_def utf8_decode_def utf8_encode_def utf8_encode_char_def
        byte_digest_def)

text \<open>
  C1. When the identifiers of the listed files are distinct (no two files collide under
  \<^verbatim>\<open>stringToUuid\<close>), a second pass over the same file system, started from the sink the
  first pass left, ends as the first did and leaves that sink as it is: the list of upserts
  has not grown. A file that is up to date (its stored document exists and carries the
  fingerprint just computed) is skipped.
\<close>

theorem rescan_performs_no_upserts:
  assumes "distinct (map (knowledgeId stringToUuid wd cfg) (scanned_files root wd cfg))"
  shows "createMemoriesFromFiles sha256_hex stringToUuid root wd cfg
           (snd (createMemoriesFromFiles sha256_hex stringToUuid root wd cfg s))
         = createMemoriesFromFiles sha256_hex stringToUuid root wd cfg s
       \<and> upserts (snd (createMemoriesFromFiles sha256_hex stringToUuid root wd cfg
                        (snd (createMemoriesFromFiles sha256_hex stringToUuid root wd cfg s))))
         = upserts (snd (createMemoriesFromFiles sha256_hex stringToUuid root wd cfg s))
       \<and> (up_to_date sha256_hex stringToUuid root wd cfg s' file \<longrightarrow>
            process_file sha256_hex stringToUuid root wd cfg file s' = Inr s')"
  using rescan_fixpoint [OF assms, of sha256_hex root s]
  by (simp add: createMemoriesFromFiles_def process_file_up_to_date)

theorem rescan_performs_no_upserts_witness:
  "distinct (map (knowledgeId same_string agent_dir acme_docs)
               (scanned_files guides_tree agent_dir acme_docs))
   \<and> upserts (snd (createMemoriesFromFiles byte_digest same_string guides_tree agent_dir acme_docs
          (snd (createMemoriesFromFiles byte_digest same_string guides_tree agent_dir acme_docs
                  recorded_sink))))
     = upserts (snd (createMemoriesFromFiles byte_digest same_string guides_tree agent_dir acme_docs
                       recorded_sink))"
proof -
  have d: "distinct (map (knowledgeId same_string agent_dir acme_docs)
                      (scanned_files guides_tree agent_dir acme_docs))"
    by (simp add: scanned_guides knowledgeId_guide)
  from rescan_performs_no_upserts [OF d, of byte_digest recorded_sink] d show ?thesis
    by blast
qed

lemma scanned_half_locked:
  "scanned_files half_locked_tree agent_dir acme_docs = [guide ''a.md'', guide ''b.md'', guide ''c.md'']"
  by (simp add: scanned_files_def searchBase_acme glob_nodir_def half_locked_tree_def mirror_of_def
        dot_name_def guide_def)

lemma fingerprint_half_locked:
  "fingerprint byte_digest half_locked_tree (guide ''a.md'') = Some (byte_digest [0x41])"
  "fingerprint byte_digest half_locked_tree (guide ''b.md'') = None"
  "fingerprint byte_digest half_locked_tree (guide ''c.md'') = Some (byte_digest [0x43])"
  by (simp_all add: fingerprint_def half_locked_tree_def mirror_of_def guide_def hashed_bytes_def
        utf8_decode_def utf8_encode_def utf8_encode_char_def)

text \<open>
  C4, as the code has it. The read of a listed file that cannot be read rejects, and the
  rejection leaves the loop: the pass ends with the read error of that file, after the
  files listed before it and without any of the files listed after it.
\<close>

theorem unreadable_file_ends_scan:
  assumes "scanned_files root wd cfg = pre @ f # post"
    and "\<forall>g\<in>set pre. fingerprint sha256_hex root g \<noteq> None"
    and "fingerprint sha256_hex root f = None"
  shows "createMemoriesFromFiles sha256_hex stringToUuid root wd cfg s =
           (Some (ReadFailed f),
            snd (for_each_file (process_file sha256_hex stringToUuid root wd cfg) pre s))"
  using scan_stops_at_unreadable [OF assms(2,3)] assms(1)
  by (simp add: createMemoriesFromFiles_def)

theorem unreadable_file_ends_scan_witness:
  "scanned_files half_locked_tree agent_dir acme_docs
     = [guide ''a.md''] @ guide ''b.md'' # [guide ''c.md'']
   \<and> fingerprint byte_digest half_locked_tree (guide ''a.md'') \<noteq> None
   \<and> fingerprint byte_digest half_locked_tree (guide ''b.md'') = None
   \<and> fst (createMemoriesFromFiles byte_digest same_string half_locked_tree agent_dir acme_docs
            empty_sink) = Some (ReadFailed (guide ''b.md''))
   \<and> upserts (snd (createMemoriesFromFiles byte_digest same_string half_locked_tree agent_dir
                      acme_docs empty_sink)) = [''github-acme-docs-guides/a.md'']"
proof -
  have 1: "scanned_files half_locked_tree agent_dir acme_docs
             = [guide ''a.md''] @ guide ''b.md'' # [guide ''c.md'']"
    by (simp add: scanned_half_locked)
  have 2: "\<forall>g\<in>set [guide ''a.md'']. fingerprint byte_digest half_locked_tree g \<noteq> None"
    by (simp add: fingerprint_half_locked)
  have 3: "\<not> up_to_date byte_digest same_string half_locked_tree agent_dir acme_docs empty_sink
               (guide ''a.md'')"
    by (simp add: up_to_date_def empty_sink_def fingerprint_half_locked)
  have 4: "upserts (snd (for_each_file
              (process_file byte_digest same_string half_locked_tree agent_dir acme_docs)
              [guide ''a.md''] empty_sink)) = [''github-acme-docs-guides/a.md'']"
    using process_file_changed [OF _ 3]
    by (simp add: fingerprint_half_locked knowledge_set_def knowledgeId_guide empty_sink_def)
  from unreadable_file_ends_scan [OF 1 2 fingerprint_half_locked(2), of same_string empty_sink]
    1 4
  show ?thesis by (simp add: fingerprint_half_locked)
qed

text \<open>
  C4 as stated fails: in the mirror whose \<^verbatim>\<open>guides/a.md\<close> cannot be read, the file
  \<^verbatim>\<open>guides/c.md\<close> is listed after it, readable and not recorded, and the pass ends with the
  error without an upsert for it.
\<close>

theorem scan_aborts_on_unreadable_file:
  "scanned_files locked_tree agent_dir acme_docs = [guide ''a.md'', guide ''c.md'']
   \<and> fingerprint byte_digest locked_tree (guide ''c.md'') = Some (byte_digest [0x43])
   \<and> documents empty_sink (knowledgeId same_string agent_dir acme_docs (guide ''c.md'')) = None
   \<and> fst (createMemoriesFromFiles byte_digest same_string locked_tree agent_dir acme_docs empty_sink)
       = Some (ReadFailed (guide ''a.md''))
   \<and> upserts (snd (createMemoriesFromFiles byte_digest same_string locked_tree agent_dir acme_docs
                      empty_sink)) = []"
  by (simp add: scanned_locked fingerprint_locked createMemoriesFromFiles_def
        process_file_unreadable empty_sink_def)

lemma scanned_blocked:
  "scanned_files blocked_tree agent_dir acme_docs =
     [guide ''0.md'', guide ''a.md'', guide ''b.md'', guide ''c.md'']"
  by (simp add: scanned_files_def searchBase_acme glob_nodir_def blocked_tree_def mirror_of_def
        dot_name_def guide_def)

lemma fingerprint_blocked:
  "fingerprint byte_digest blocked_tree (guide ''0.md'') = None"
  "fingerprint byte_digest blocked_tree (guide ''a.md'') = Some (byte_digest [0x41, 0x32])"
  "fingerprint byte_digest blocked_tree (guide ''c.md'') = Some (byte_digest [0x43])"
  by (simp_all add: fingerprint_def blocked_tree_def mirror_of_def guide_def hashed_bytes_def
        utf8_decode_def utf8_encode_def utf8_encode_char_def)

text \<open>
  C5, as the code has it. In a scan in which every listed file can be read, and the
  identifiers of the listed files are distinct (no two files collide under
  \<^verbatim>\<open>stringToUuid\<close>), the pass ends without error, upserts exactly the identifiers of the
  files that are not up to date (no stored document, or another fingerprint), in the order
  of the listing, and leaves the stored document of every other identifier as it was;
  afterwards every listed file is up to date.
\<close>

theorem scan_upserts_exactly_changed_files:
  assumes "distinct (map (knowledgeId stringToUuid wd cfg) (scanned_files root wd cfg))"
    and "\<forall>f\<in>set (scanned_files root wd cfg). fingerprint sha256_hex root f \<noteq> None"
  shows "fst (createMemoriesFromFiles sha256_hex stringToUuid root wd cfg s) = None
     \<and> upserts (snd (createMemoriesFromFiles sha256_hex stringToUuid root wd cfg s)) =
         upserts s @ map (knowledgeId stringToUuid wd cfg)
           (filter (\<lambda>f. \<not> up_to_date sha256_hex stringToUuid root wd cfg s f)
              (scanned_files root wd cfg))
     \<and> (\<forall>f\<in>set (scanned_files root wd cfg).
          up_to_date sha256_hex stringToUuid root wd cfg s f \<longrightarrow>
          documents (snd (createMemoriesFromFiles sha256_hex stringToUuid root wd cfg s))
            (knowledgeId stringToUuid wd cfg f) = documents s (knowledgeId stringToUuid wd cfg f))
     \<and> (\<forall>i. i \<notin> knowledgeId stringToUuid wd cfg `
                 {f \<in> set (scanned_files root wd cfg).
                    \<not> up_to_date sha256_hex stringToUuid root wd cfg s f} \<longrightarrow>
          documents (snd (createMemoriesFromFiles sha256_hex stringToUuid root wd cfg s)) i
            = documents s i)
     \<and> (\<forall>f\<in>set (scanned_files root wd cfg).
          up_to_date sha256_hex stringToUuid root wd cfg
            (snd (createMemoriesFromFiles sha256_hex stringToUuid root wd cfg s)) f)"
proof -
  let ?id = "knowledgeId stringToUuid wd cfg"
  let ?utd = "up_to_date sha256_hex stringToUuid root wd cfg"
  let ?files = "scanned_files root wd cfg"
  from scan_readable [OF assms, of s] obtain s' where
    run: "for_each_file (process_file sha256_hex stringToUuid root wd cfg) ?files s = (None, s')"
    and ups: "upserts s' = upserts s @ map ?id (filter (\<lambda>f. \<not> ?utd s f) ?files)"
    and docs: "\<forall>i. i \<notin> ?id ` {f \<in> set ?files. \<not> ?utd s f} \<longrightarrow> documents s' i = documents s i"
    and utd: "\<forall>f\<in>set ?files. ?utd s' f"
    by blast
  have res: "createMemoriesFromFiles sha256_hex stringToUuid root wd cfg s = (None, s')"
    using run by (simp add: createMemoriesFromFiles_def)
  have skipped: "\<forall>f\<in>set ?files. ?utd s f \<longrightarrow> documents s' (?id f) = documents s (?id f)"
  proof (intro ballI impI)
    fix f assume f: "f \<in> set ?files" and u: "?utd s f"
    have "?id f \<notin> ?id ` {g \<in> set ?files. \<not> ?utd s g}"
    proof
      assume "?id f \<in> ?id ` {g \<in> set ?files. \<not> ?utd s g}"
      then obtain g where g: "g \<in> set ?files" "\<not> ?utd s g" "?id f = ?id g" by auto
      from assms(1) f g(1,3) have "f = g"
        by (meson distinct_map inj_onD)
      with u g(2) show False by simp
    qed
    with docs show "documents s' (?id f) = documents s (?id f)" by blast
  qed
  show ?thesis
    unfolding res using ups docs utd skipped by simp
qed

theorem scan_upserts_exactly_changed_files_witness:
  "distinct (map (knowledgeId same_string agent_dir acme_docs)
               (scanned_files guides_tree agent_dir acme_docs))
   \<and> list_all (\<lambda>f. fingerprint byte_digest guides_tree f \<noteq> None)
         (scanned_files guides_tree agent_dir acme_docs)
   \<and> fst (createMemoriesFromFiles byte_digest same_string guides_tree agent_dir acme_docs
            recorded_sink) = None
   \<and> upserts (snd (createMemoriesFromFiles byte_digest same_string guides_tree agent_dir acme_docs
                      recorded_sink))
       = [''github-acme-docs-guides/a.md'', ''github-acme-docs-guides/c.md'']
   \<and> documents (snd (createMemoriesFromFiles byte_digest same_string guides_tree agent_dir
                        acme_docs recorded_sink)) ''github-acme-docs-guides/b.md''
       = documents recorded_sink ''github-acme-docs-guides/b.md''"
proof -
  have d: "distinct (map (knowledgeId same_string agent_dir acme_docs)
                      (scanned_files guides_tree agent_dir acme_docs))"
    by (simp add: scanned_guides knowledgeId_guide)
  have r: "\<forall>f\<in>set (scanned_files guides_tree agent_dir acme_docs).
             fingerprint byte_digest guides_tree f \<noteq> None"
    by (simp add: scanned_guides fingerprint_guides)
  have u: "upserts recorded_sink = []" by (simp add: recorded_sink_def)
  from scan_upserts_exactly_changed_files [OF d r, of recorded_sink] d r show ?thesis
    by (simp add: scanned_guides up_to_date_recorded knowledgeId_guide u list_all_iff)
qed

text \<open>
  C5 as stated fails: in the mirror whose first listed file cannot be read,
  \<^verbatim>\<open>guides/a.md\<close> has another content than the one recorded and \<^verbatim>\<open>guides/c.md\<close> is not
  recorded, both can be read, and the pass ends with the read error of the first file
  without an upsert for either.
\<close>

theorem unreadable_file_blocks_changed_files:
  "scanned_files blocked_tree agent_dir acme_docs =
     [guide ''0.md'', guide ''a.md'', guide ''b.md'', guide ''c.md'']
   \<and> fingerprint byte_digest blocked_tree (guide ''a.md'') = Some (byte_digest [0x41, 0x32])
   \<and> map_option doc_hash
         (documents recorded_sink (knowledgeId same_string agent_dir acme_docs (guide ''a.md'')))
       = Some (Some (byte_digest [0x41]))
   \<and> byte_digest [0x41, 0x32] \<noteq> byte_digest [0x41]
   \<and> fingerprint byte_digest blocked_tree (guide ''c.md'') = Some (byte_digest [0x43])
   \<and> documents recorded_sink (knowledgeId same_string agent_dir acme_docs (guide ''c.md'')) = None
   \<and> fst (createMemoriesFromFiles byte_digest same_string blocked_tree agent_dir acme_docs
            recorded_sink) = Some (ReadFailed (guide ''0.md''))
   \<and> upserts (snd (createMemoriesFromFiles byte_digest same_string blocked_tree agent_dir
                      acme_docs recorded_sink)) = []"
  by (simp add: scanned_blocked fingerprint_blocked createMemoriesFromFiles_def
        process_file_unreadable knowledgeId_guide)
     (simp add: recorded_sink_def github_document_def hashed_bytes_def utf8_decode_def
        utf8_encode_def utf8_encode_char_def byte_digest_def)

subsection \<open>The listing of the scan\<close>

lemma no_dot_simps [simp]: "no_dot [] = True" "no_dot (s # p) = (\<not> dot_name s \<and> no_dot p)"
  by (simp_all add: no_dot_def)

lemma map_of_notin_fst: "name \<notin> fst ` set es \<Longrightarrow> map_of es name = None"
  by (simp add: map_of_eq_None_iff)

lemma is_file_simps [simp]:
  "is_file None = False" "is_file (Some (File c)) = True" "is_file (Some (Dir es)) = False"
  by (simp_all add: is_file_def)

lemma resolve_File_Cons: "p \<noteq> [] \<Longrightarrow> resolve (File c) p = None"
  by (cases p) simp_all

lemma globstar_mem_step:
  assumes fresh: "name \<notin> fst ` set es"
    and rest: "\<And>q. q \<in> set (globstar_entries es) \<longleftrightarrow> q \<noteq> [] \<and> no_dot q \<and> is_file (resolve (Dir es) q)"
    and sub: "\<not> dot_name name \<Longrightarrow> (\<And>q. q \<in> set (globstar n) \<longleftrightarrow> no_dot q \<and> is_file (resolve n q))"
  shows "p \<in> set (globstar_entries ((name, n) # es)) \<longleftrightarrow>
           p \<noteq> [] \<and> no_dot p \<and> is_file (resolve (Dir ((name, n) # es)) p)"
proof (cases p)
  case Nil
  then show ?thesis by (auto simp: rest)
next
  case (Cons s ss)
  show ?thesis
  proof (cases "s = name")
    case True
    have none: "resolve (Dir es) (name # ss) = None"
      using fresh by (simp add: map_of_notin_fst)
    have "\<not> is_file (resolve (Dir es) (name # ss))"
      unfolding none by simp
    then have notin: "name # ss \<notin> set (globstar_entries es)"
      unfolding rest by blast
    show ?thesis
    proof (cases "dot_name name")
      case dn: True
      then show ?thesis using Cons True notin by simp
    next
      case dn: False
      have "name # ss \<in> (#) name ` set (globstar n) \<longleftrightarrow> ss \<in> set (globstar n)"
        by blast
      then show ?thesis using Cons True notin dn sub [OF dn, of ss] by simp
    qed
  next
    case False
    have "s # ss \<notin> (#) name ` set (globstar n)" using False by blast
    then show ?thesis using Cons False by (simp add: rest)
  qed
qed

lemma globstar_mem:
  "wf_fs n \<Longrightarrow> (p \<in> set (globstar n) \<longleftrightarrow> no_dot p \<and> is_file (resolve n p))"
  "wf_entries es \<Longrightarrow>
     (p \<in> set (globstar_entries es) \<longleftrightarrow> p \<noteq> [] \<and> no_dot p \<and> is_file (resolve (Dir es) p))"
proof (induction n and es arbitrary: p and p rule: globstar_globstar_entries.induct)
  case (1 c)
  show ?case by (cases p) simp_all
next
  case (2 es)
  then have ih: "p \<in> set (globstar_entries es) \<longleftrightarrow> p \<noteq> [] \<and> no_dot p \<and> is_file (resolve (Dir es) p)"
    by simp
  show ?case
  proof (cases p)
    case Nil then show ?thesis using ih by simp
  next
    case (Cons s ss) then show ?thesis using ih by simp
  qed
next
  case 3
  show ?case by (cases p) simp_all
next
  case (4 name n es)
  from "4.prems" have fresh: "name \<notin> fst ` set es" and wn: "wf_fs n" and we: "wf_entries es"
    by simp_all
  have rest: "\<And>q. q \<in> set (globstar_entries es) \<longleftrightarrow> q \<noteq> [] \<and> no_dot q \<and> is_file (resolve (Dir es) q)"
  proof (cases "dot_name name")
    case True
    fix q show "q \<in> set (globstar_entries es) \<longleftrightarrow> q \<noteq> [] \<and> no_dot q \<and> is_file (resolve (Dir es) q)"
      using "4.IH"(1) [OF True we] .
  next
    case False
    fix q show "q \<in> set (globstar_entries es) \<longleftrightarrow> q \<noteq> [] \<and> no_dot q \<and> is_file (resolve (Dir es) q)"
      using "4.IH"(3) [OF False we] .
  qed
  have sub: "\<not> dot_name name \<Longrightarrow> (\<And>q. q \<in> set (globstar n) \<longleftrightarrow> no_dot q \<and> is_file (resolve n q))"
    using "4.IH"(2) wn by blast
  show ?case by (rule globstar_mem_step [OF fresh rest sub])
qed

lemma globstar_entries_hd:
  "p \<in> set (globstar_entries es) \<Longrightarrow> p \<noteq> [] \<and> hd p \<in> fst ` set es"
  by (induction es) (auto split: if_splits)

lemma globstar_distinct:
  "wf_fs n \<Longrightarrow> distinct (globstar n)"
  "wf_entries es \<Longrightarrow> distinct (globstar_entries es)"
proof (induction n and es rule: globstar_globstar_entries.induct)
  case (4 name n es)
  from "4.prems" have fresh: "name \<notin> fst ` set es" and wn: "wf_fs n" and we: "wf_entries es"
    by simp_all
  have rest: "distinct (globstar_entries es)"
    using "4.IH"(1,3) we by (cases "dot_name name") simp_all
  show ?case
  proof (cases "dot_name name")
    case True then show ?thesis using rest by simp
  next
    case False
    have d: "distinct (map ((#) name) (globstar n))"
      using "4.IH"(2) [OF False wn] by (simp add: distinct_map)
    have "\<And>q. q \<in> set (globstar_entries es) \<Longrightarrow> q \<notin> (#) name ` set (globstar n)"
    proof
      fix q assume q: "q \<in> set (globstar_entries es)" and "q \<in> (#) name ` set (globstar n)"
      then have "hd q = name" by auto
      with globstar_entries_hd [OF q] fresh show False by simp
    qed
    then have "set (map ((#) name) (globstar n)) \<inter> set (globstar_entries es) = {}"
      by auto
    then show ?thesis using False rest d by simp
  qed
qed simp_all

lemma resolve_append:
  "resolve n (p @ q) = (case resolve n p of None \<Rightarrow> None | Some n' \<Rightarrow> resolve n' q)"
  by (induction n p rule: resolve.induct) (simp_all split: option.splits)

lemma wf_map_of: "wf_entries es \<Longrightarrow> map_of es s = Some n \<Longrightarrow> wf_fs n"
  by (induction es) (auto split: if_splits)

lemma wf_resolve: "wf_fs n \<Longrightarrow> resolve n p = Some n' \<Longrightarrow> wf_fs n'"
proof (induction n p rule: resolve.induct)
  case (3 es s ss)
  then show ?case by (auto split: option.splits dest: wf_map_of)
qed simp_all

lemma glob_nodir_distinct: "wf_fs r \<Longrightarrow> distinct (glob_nodir r base)"
proof (cases "resolve r base")
  case None then show ?thesis by (simp add: glob_nodir_def)
next
  case (Some n)
  assume wf: "wf_fs r"
  show ?thesis
  proof (cases n)
    case (File c) then show ?thesis using Some by (simp add: glob_nodir_def)
  next
    case (Dir es)
    with Some wf have "wf_entries es" using wf_resolve by fastforce
    then show ?thesis using Some Dir
      by (simp add: glob_nodir_def distinct_map globstar_distinct inj_on_def)
  qed
qed

lemma glob_nodir_mem:
  assumes "wf_fs r"
  shows "file \<in> set (glob_nodir r base) \<longleftrightarrow>
         (\<exists>p. file = base @ p \<and> p \<noteq> [] \<and> no_dot p \<and> is_file (resolve r file))"
proof (cases "resolve r base")
  case None
  then show ?thesis by (simp add: glob_nodir_def resolve_append)
next
  case (Some n)
  show ?thesis
  proof (cases n)
    case (File c)
    then show ?thesis using Some
      by (auto simp: glob_nodir_def resolve_append resolve_File_Cons)
  next
    case (Dir es)
    with Some assms have "wf_entries es" using wf_resolve by fastforce
    from globstar_mem(2) [OF this] show ?thesis using Some Dir
      by (auto simp: glob_nodir_def resolve_append)
  qed
qed

lemma wf_guides_tree: "wf_fs guides_tree"
  by (simp add: guides_tree_def mirror_of_def)

text \<open>
  C6, as the code has it. In a well-formed file system, and for a search base that glob
  takes literally, the scan lists, once each, exactly the files that lie below the search
  base on a path none of whose segments below the base starts with a dot; directories are
  not listed. The search base is the mirror directory when the path filter is empty, and
  the filter joined to the mirror directory otherwise.
\<close>

theorem scan_lists_files_without_dot_names:
  assumes "wf_fs root" and "list_all glob_literal (searchBase wd cfg)"
  shows "distinct (scanned_files root wd cfg)
     \<and> (file \<in> set (scanned_files root wd cfg) \<longleftrightarrow>
          (\<exists>p. file = searchBase wd cfg @ p \<and> p \<noteq> [] \<and> no_dot p
               \<and> is_file (resolve root file)))
     \<and> searchBase wd cfg =
          (if cfg_path cfg = [] then repoPath wd cfg
           else path_join (repoPath wd cfg) [cfg_path cfg])"
  using glob_nodir_distinct [OF assms(1)] glob_nodir_mem [OF assms(1)]
  by (simp add: scanned_files_def searchBase_def)

theorem scan_lists_files_without_dot_names_witness:
  "wf_fs guides_tree
   \<and> list_all glob_literal (searchBase agent_dir acme_docs)
   \<and> distinct (scanned_files guides_tree agent_dir acme_docs)
   \<and> guide ''b.md'' \<in> set (scanned_files guides_tree agent_dir acme_docs)
   \<and> guide ''b.md'' = searchBase agent_dir acme_docs @ [''b.md'']"
proof -
  have b: "guide ''b.md'' = searchBase agent_dir acme_docs @ [''b.md'']"
    by (simp add: searchBase_acme guide_def)
  have f: "is_file (resolve guides_tree (guide ''b.md''))"
    by (simp add: guides_tree_def mirror_of_def guide_def)
  have n: "no_dot [''b.md'']" by (simp add: dot_name_def)
  have l: "list_all glob_literal (searchBase agent_dir acme_docs)"
    by (simp add: searchBase_acme glob_literal_def)
  from scan_lists_files_without_dot_names [OF wf_guides_tree l, of "guide ''b.md''"]
    wf_guides_tree l b f n
  show ?thesis by blast
qed

text \<open>
  C6 as stated fails: \<^verbatim>\<open>guides/.draft.md\<close> is a regular file under the path filter and the
  scan does not list it.
\<close>

theorem dot_file_not_scanned:
  "is_file (resolve guides_tree (guide ''.draft.md''))
   \<and> guide ''.draft.md'' = searchBase agent_dir acme_docs @ [''.draft.md'']
   \<and> guide ''.draft.md'' \<notin> set (scanned_files guides_tree agent_dir acme_docs)"
  by (simp add: scanned_guides searchBase_acme)
     (simp add: guide_def guides_tree_def mirror_of_def)

subsection \<open>Fingerprints\<close>

lemma byte_unat: "n < 256 \<Longrightarrow> unat (of_nat n :: byte) = n"
  by (simp add: unat_of_nat)

lemma nat_and_masks:
  "(n::nat) AND 63 = n mod 64" "n AND 31 = n mod 32" "n AND 15 = n mod 16" "n AND 7 = n mod 8"
proof -
  have m: "(63::nat) = mask 6" "(31::nat) = mask 5" "(15::nat) = mask 4" "(7::nat) = mask 3"
    by (simp_all add: mask_eq_exp_minus_1)
  have t: "n AND mask k = n mod 2 ^ k" for k
    by (simp add: take_bit_eq_mod flip: take_bit_eq_mask)
  show "n AND 63 = n mod 64" "n AND 31 = n mod 32" "n AND 15 = n mod 16" "n AND 7 = n mod 8"
    unfolding m t by simp_all
qed

lemma unat_and_masks:
  "unat ((w::byte) AND 0x3F) = unat w mod 64"
  "unat ((w::byte) AND 0x1F) = unat w mod 32"
  "unat ((w::byte) AND 0x0F) = unat w mod 16"
  "unat ((w::byte) AND 0x07) = unat w mod 8"
  by (simp_all add: unsigned_and_eq nat_and_masks)

lemma byte_eq_unat: "(a::byte) = b \<longleftrightarrow> unat a = unat b"
  by (simp add: word_unat_eq_iff)

lemma decode_lead:
  "utf8_decode_from cp 0 lo hi (b # bs) =
    (if unat b \<le> 127 then unat b # utf8_decode_from 0 0 0x80 0xBF bs
     else if 194 \<le> unat b \<and> unat b \<le> 223 then
       utf8_decode_from (unat b mod 32) 1 0x80 0xBF bs
     else if 224 \<le> unat b \<and> unat b \<le> 239 then
       utf8_decode_from (unat b mod 16) 2
         (if unat b = 224 then 0xA0 else 0x80) (if unat b = 237 then 0x9F else 0xBF) bs
     else if 240 \<le> unat b \<and> unat b \<le> 244 then
       utf8_decode_from (unat b mod 8) 3
         (if unat b = 240 then 0x90 else 0x80) (if unat b = 244 then 0x8F else 0xBF) bs
     else replacement_char # utf8_decode_from 0 0 0x80 0xBF bs)"
  by (simp add: word_le_nat_alt unat_and_masks byte_eq_unat)

lemma decode_cont:
  "0 < needed \<Longrightarrow> unat lo \<le> unat b \<Longrightarrow> unat b \<le> unat hi \<Longrightarrow>
   utf8_decode_from cp needed lo hi (b # bs) =
    (if needed = 1 then (cp * 64 + unat b mod 64) # utf8_decode_from 0 0 0x80 0xBF bs
     else utf8_decode_from (cp * 64 + unat b mod 64) (needed - 1) 0x80 0xBF bs)"
  by (simp add: word_less_nat_alt unat_and_masks)

lemma decode_encode_1:
  assumes "cp < 0x80"
  shows "utf8_decode_from 0 0 0x80 0xBF (utf8_encode_char cp @ rest)
         = cp # utf8_decode_from 0 0 0x80 0xBF rest"
proof -
  have u: "unat (of_nat cp :: byte) = cp" using assms by (simp add: byte_unat)
  show ?thesis using assms
    by (simp add: utf8_encode_char_def decode_lead u del: utf8_decode_from.simps)
qed

lemma add_mod_small: "m dvd a \<Longrightarrow> r < m \<Longrightarrow> (a + r) mod m = (r::nat)"
  by (auto simp: dvd_def)

lemma decode_encode_2:
  assumes "0x80 \<le> cp" "cp < 0x800"
  shows "utf8_decode_from 0 0 0x80 0xBF (utf8_encode_char cp @ rest)
         = cp # utf8_decode_from 0 0 0x80 0xBF rest"
proof -
  define k where "k = cp div 64"
  define r where "r = cp mod 64"
  define b1 :: byte where "b1 = of_nat (192 + k)"
  define b2 :: byte where "b2 = of_nat (128 + r)"
  have cp: "k * 64 + r = cp" by (simp add: k_def r_def)
  have k: "2 \<le> k" "k < 32" using assms by (simp_all add: k_def)
  have r: "r < 64" by (simp add: r_def)
  have u1: "unat b1 = 192 + k" unfolding b1_def by (rule byte_unat) (use k in simp)
  have u2: "unat b2 = 128 + r" unfolding b2_def by (rule byte_unat) (use r in simp)
  have m1: "(192 + k) mod 32 = k" by (rule add_mod_small) (use k in simp_all)
  have m2: "(128 + r) mod 64 = r" by (rule add_mod_small) (use r in simp_all)
  have enc: "utf8_encode_char cp = [b1, b2]"
    using assms by (simp add: utf8_encode_char_def k_def r_def b1_def b2_def)
  have s1: "utf8_decode_from 0 0 0x80 0xBF (b1 # b2 # rest) = utf8_decode_from k 1 0x80 0xBF (b2 # rest)"
    by (subst decode_lead) (use k in \<open>simp add: u1 m1 del: utf8_decode_from.simps\<close>)
  have s2: "utf8_decode_from k 1 0x80 0xBF (b2 # rest) = cp # utf8_decode_from 0 0 0x80 0xBF rest"
    by (subst decode_cont) (use r in \<open>simp_all add: u2 m2 cp del: utf8_decode_from.simps\<close>)
  show ?thesis
    unfolding enc using s1 s2 by (simp del: utf8_decode_from.simps)
qed

lemma decode_encode_3:
  assumes "0x800 \<le> cp" "cp < 0x10000" "\<not> (0xD800 \<le> cp \<and> cp \<le> 0xDFFF)"
  shows "utf8_decode_from 0 0 0x80 0xBF (utf8_encode_char cp @ rest)
         = cp # utf8_decode_from 0 0 0x80 0xBF rest"
proof -
  define r where "r = cp mod 64"
  define q where "q = cp div 64"
  define s where "s = q mod 64"
  define p where "p = q div 64"
  define b1 :: byte where "b1 = of_nat (224 + p)"
  define b2 :: byte where "b2 = of_nat (128 + s)"
  define b3 :: byte where "b3 = of_nat (128 + r)"
  define lo :: byte where "lo = (if unat b1 = 224 then 0xA0 else 0x80)"
  define hi :: byte where "hi = (if unat b1 = 237 then 0x9F else 0xBF)"
  have cp: "q * 64 + r = cp" by (simp add: q_def r_def)
  have q: "p * 64 + s = q" by (simp add: p_def s_def)
  have qb: "32 \<le> q" "q < 1024" using assms by (simp_all add: q_def)
  have r: "r < 64" by (simp add: r_def)
  have s: "s < 64" by (simp add: s_def)
  have p: "p < 16" using qb by (simp add: p_def)
  have u1: "unat b1 = 224 + p" unfolding b1_def by (rule byte_unat) (use p in simp)
  have u2: "unat b2 = 128 + s" unfolding b2_def by (rule byte_unat) (use s in simp)
  have u3: "unat b3 = 128 + r" unfolding b3_def by (rule byte_unat) (use r in simp)
  have m1: "(224 + p) mod 16 = p" by (rule add_mod_small) (use p in simp_all)
  have m2: "(128 + s) mod 64 = s" by (rule add_mod_small) (use s in simp_all)
  have m3: "(128 + r) mod 64 = r" by (rule add_mod_small) (use r in simp_all)
  have d: "cp div 4096 = p" by (simp add: p_def q_def div_mult2_eq [symmetric])
  have enc: "utf8_encode_char cp = [b1, b2, b3]"
  proof -
    from assms(3) have ns: "(55296 \<le> cp \<and> cp \<le> 57343) = False" by simp
    show ?thesis
      using assms(1,2)
      by (simp add: utf8_encode_char_def ns d b1_def b2_def b3_def s_def q_def r_def
            del: de_Morgan_conj)
  qed
  have lo: "unat lo \<le> unat b2"
  proof (cases "p = 0")
    case True
    with q qb have "32 \<le> s" by simp
    then show ?thesis by (simp add: lo_def u1 u2 True)
  next
    case False
    then show ?thesis by (simp add: lo_def u1 u2)
  qed
  have hi: "unat b2 \<le> unat hi"
  proof (cases "p = 13")
    case True
    have "s < 32"
    proof (rule ccontr)
      assume "\<not> s < 32"
      then have "55296 \<le> cp" "cp \<le> 57343" using cp q True r s by linarith+
      with assms(3) show False by simp
    qed
    then show ?thesis by (simp add: hi_def u1 u2 True)
  next
    case False
    then show ?thesis using s by (simp add: hi_def u1 u2)
  qed
  have s1: "utf8_decode_from 0 0 0x80 0xBF (b1 # b2 # b3 # rest)
            = utf8_decode_from p 2 lo hi (b2 # b3 # rest)"
    by (subst decode_lead) (use p in \<open>simp add: u1 m1 lo_def hi_def del: utf8_decode_from.simps\<close>)
  have s2: "utf8_decode_from p 2 lo hi (b2 # b3 # rest) = utf8_decode_from q 1 0x80 0xBF (b3 # rest)"
  proof -
    have "utf8_decode_from p 2 lo hi (b2 # b3 # rest) =
       (if (2::nat) = 1 then (p * 64 + unat b2 mod 64) # utf8_decode_from 0 0 0x80 0xBF (b3 # rest)
        else utf8_decode_from (p * 64 + unat b2 mod 64) (2 - 1) 0x80 0xBF (b3 # rest))"
      by (rule decode_cont) (simp_all add: lo hi)
    then show ?thesis by (simp add: u2 m2 q del: utf8_decode_from.simps)
  qed
  have s3: "utf8_decode_from q 1 0x80 0xBF (b3 # rest) = cp # utf8_decode_from 0 0 0x80 0xBF rest"
    by (subst decode_cont) (use r in \<open>simp_all add: u3 m3 cp del: utf8_decode_from.simps\<close>)
  show ?thesis
    unfolding enc using s1 s2 s3 by (simp del: utf8_decode_from.simps)
qed

lemma decode_encode_4:
  assumes "0x10000 \<le> cp" "cp < 0x110000"
  shows "utf8_decode_from 0 0 0x80 0xBF (utf8_encode_char cp @ rest)
         = cp # utf8_decode_from 0 0 0x80 0xBF rest"
proof -
  define r where "r = cp mod 64"
  define q where "q = cp div 64"
  define s where "s = q mod 64"
  define p where "p = q div 64"
  define u where "u = p mod 64"
  define t where "t = p div 64"
  define b1 :: byte where "b1 = of_nat (240 + t)"
  define b2 :: byte where "b2 = of_nat (128 + u)"
  define b3 :: byte where "b3 = of_nat (128 + s)"
  define b4 :: byte where "b4 = of_nat (128 + r)"
  define lo :: byte where "lo = (if unat b1 = 240 then 0x90 else 0x80)"
  define hi :: byte where "hi = (if unat b1 = 244 then 0x8F else 0xBF)"
  have cp: "q * 64 + r = cp" by (simp add: q_def r_def)
  have q: "p * 64 + s = q" by (simp add: p_def s_def)
  have pe: "t * 64 + u = p" by (simp add: t_def u_def)
  have qb: "1024 \<le> q" "q < 17408" using assms by (simp_all add: q_def)
  have pb: "16 \<le> p" "p < 272" using qb by (simp_all add: p_def)
  have r: "r < 64" by (simp add: r_def)
  have s: "s < 64" by (simp add: s_def)
  have u: "u < 64" by (simp add: u_def)
  have t: "t < 5" using pb by (simp add: t_def)
  have u1: "unat b1 = 240 + t" unfolding b1_def by (rule byte_unat) (use t in simp)
  have u2: "unat b2 = 128 + u" unfolding b2_def by (rule byte_unat) (use u in simp)
  have u3: "unat b3 = 128 + s" unfolding b3_def by (rule byte_unat) (use s in simp)
  have u4: "unat b4 = 128 + r" unfolding b4_def by (rule byte_unat) (use r in simp)
  have m1: "(240 + t) mod 8 = t" by (rule add_mod_small) (use t in simp_all)
  have m2: "(128 + u) mod 64 = u" by (rule add_mod_small) (use u in simp_all)
  have m3: "(128 + s) mod 64 = s" by (rule add_mod_small) (use s in simp_all)
  have m4: "(128 + r) mod 64 = r" by (rule add_mod_small) (use r in simp_all)
  have d1: "cp div 4096 = p" by (simp add: p_def q_def div_mult2_eq [symmetric])
  have d2: "cp div 262144 = t" by (simp add: t_def p_def q_def div_mult2_eq [symmetric])
  have enc: "utf8_encode_char cp = [b1, b2, b3, b4]"
    using assms by (simp add: utf8_encode_char_def d1 d2 b1_def b2_def b3_def b4_def
                      u_def s_def q_def r_def)
  have lo: "unat lo \<le> unat b2"
  proof (cases "t = 0")
    case True
    with pe pb have "16 \<le> u" by simp
    then show ?thesis by (simp add: lo_def u1 u2 True)
  next
    case False
    then show ?thesis by (simp add: lo_def u1 u2)
  qed
  have hi: "unat b2 \<le> unat hi"
  proof (cases "t = 4")
    case True
    with pe pb have "u < 16" by simp
    then show ?thesis by (simp add: hi_def u1 u2 True)
  next
    case False
    then show ?thesis using u by (simp add: hi_def u1 u2)
  qed
  have s1: "utf8_decode_from 0 0 0x80 0xBF (b1 # b2 # b3 # b4 # rest)
            = utf8_decode_from t 3 lo hi (b2 # b3 # b4 # rest)"
    by (subst decode_lead) (use t in \<open>simp add: u1 m1 lo_def hi_def del: utf8_decode_from.simps\<close>)
  have s2: "utf8_decode_from t 3 lo hi (b2 # b3 # b4 # rest)
            = utf8_decode_from p 2 0x80 0xBF (b3 # b4 # rest)"
  proof -
    have "utf8_decode_from t 3 lo hi (b2 # b3 # b4 # rest) =
       (if (3::nat) = 1
        then (t * 64 + unat b2 mod 64) # utf8_decode_from 0 0 0x80 0xBF (b3 # b4 # rest)
        else utf8_decode_from (t * 64 + unat b2 mod 64) (3 - 1) 0x80 0xBF (b3 # b4 # rest))"
      by (rule decode_cont) (simp_all add: lo hi)
    then show ?thesis by (simp add: u2 m2 pe del: utf8_decode_from.simps)
  qed
  have s3: "utf8_decode_from p 2 0x80 0xBF (b3 # b4 # rest)
            = utf8_decode_from q 1 0x80 0xBF (b4 # rest)"
    by (subst decode_cont) (use s in \<open>simp_all add: u3 m3 q del: utf8_decode_from.simps\<close>)
  have s4: "utf8_decode_from q 1 0x80 0xBF (b4 # rest) = cp # utf8_decode_from 0 0 0x80 0xBF rest"
    by (subst decode_cont) (use r in \<open>simp_all add: u4 m4 cp del: utf8_decode_from.simps\<close>)
  show ?thesis
    unfolding enc using s1 s2 s3 s4 by (simp del: utf8_decode_from.simps)
qed

lemma decode_encode_char:
  assumes "scalar_value cp"
  shows "utf8_decode_from 0 0 0x80 0xBF (utf8_encode_char cp @ rest)
         = cp # utf8_decode_from 0 0 0x80 0xBF rest"
proof -
  consider "cp < 0x80" | "0x80 \<le> cp" "cp < 0x800" | "0x800 \<le> cp" "cp < 0x10000"
    | "0x10000 \<le> cp" by linarith
  then show ?thesis
  proof cases
    case 1 then show ?thesis by (rule decode_encode_1)
  next
    case 2 then show ?thesis by (rule decode_encode_2)
  next
    case 3 with assms show ?thesis by (intro decode_encode_3) (simp_all add: scalar_value_def)
  next
    case 4 with assms show ?thesis by (intro decode_encode_4) (simp_all add: scalar_value_def)
  qed
qed

lemma utf8_roundtrip:
  "list_all scalar_value t \<Longrightarrow> utf8_decode (utf8_encode t) = t"
proof (induction t)
  case Nil
  show ?case by (simp add: utf8_decode_def utf8_encode_def)
next
  case (Cons cp t)
  then show ?case
    by (simp add: utf8_decode_def utf8_encode_def decode_encode_char del: utf8_decode_from.simps)
qed

text \<open>The stand-in digest of the examples has no collision.\<close>

lemma inj_byte_digest: "inj byte_digest"
proof -
  have "inj (\<lambda>b::byte. char_of (unat b))"
  proof (rule injI)
    fix a b :: byte
    assume "char_of (unat a) = char_of (unat b)"
    then have "(of_char (char_of (unat a)) :: nat) = of_char (char_of (unat b))" by simp
    moreover have "unat a < 256" "unat b < 256"
      using unsigned_less [of a] unsigned_less [of b] by simp_all
    ultimately have "unat a = unat b" by simp
    then show "a = b" by (simp add: word_unat_eq_iff)
  qed
  then have "inj (map (\<lambda>b::byte. char_of (unat b)))" by (rule inj_mapI)
  moreover have "byte_digest = map (\<lambda>b::byte. char_of (unat b))"
    by (rule ext) (simp add: byte_digest_def)
  ultimately show ?thesis by simp
qed

lemma fingerprint_File:
  "resolve root file = Some (File (Some bs)) \<Longrightarrow>
   fingerprint sha256_hex root file = Some (sha256_hex (hashed_bytes bs))"
  by (simp add: fingerprint_def)

lemma hashed_bytes_well_formed:
  "list_all scalar_value t \<Longrightarrow> hashed_bytes (utf8_encode t) = utf8_encode t"
  by (simp add: hashed_bytes_def utf8_roundtrip)

lemma process_file_stores_fingerprint:
  assumes "fingerprint sha256_hex root file = Some h"
  shows "\<exists>s'. process_file sha256_hex stringToUuid root wd cfg file s = Inr s'
           \<and> (\<exists>d. documents s' (knowledgeId stringToUuid wd cfg file) = Some d
                  \<and> doc_hash d = Some h)"
proof (cases "up_to_date sha256_hex stringToUuid root wd cfg s file")
  case True
  then have "\<exists>d. documents s (knowledgeId stringToUuid wd cfg file) = Some d \<and> doc_hash d = Some h"
    using assms by (auto simp: up_to_date_def split: option.splits)
  with process_file_up_to_date [OF True] show ?thesis by simp
next
  case False
  from assms have r: "fingerprint sha256_hex root file \<noteq> None" by simp
  from process_file_changed [OF r False] doc_hash_document_for [OF r, of wd cfg] assms
  show ?thesis by (simp add: knowledge_set_def)
qed

text \<open>
  C2, as the code has it. The fingerprint of a readable file, which is the hash stored with
  its record, is the digest of the UTF-8 encoding of the text that decoding the bytes of
  the file as UTF-8 yields. Files with the same bytes have the same fingerprint. A file
  whose bytes are well-formed UTF-8 (the encoding of Unicode scalar values) has the digest
  of its raw bytes, and two such files have the same fingerprint only when the digests of
  their raw bytes are the same.
\<close>

theorem fingerprint_digests_decoded_text:
  assumes "resolve root file = Some (File (Some bs))"
  shows "fingerprint sha256_hex root file = Some (sha256_hex (utf8_encode (utf8_decode bs)))
     \<and> (\<exists>s'. process_file sha256_hex stringToUuid root wd cfg file s = Inr s'
           \<and> (\<exists>d. documents s' (knowledgeId stringToUuid wd cfg file) = Some d
                  \<and> doc_hash d = Some (sha256_hex (utf8_encode (utf8_decode bs)))))
     \<and> (resolve root file' = Some (File (Some bs)) \<longrightarrow>
          fingerprint sha256_hex root file' = fingerprint sha256_hex root file)
     \<and> (list_all scalar_value t \<and> bs = utf8_encode t \<longrightarrow>
          fingerprint sha256_hex root file = Some (sha256_hex bs))
     \<and> (list_all scalar_value t \<and> bs = utf8_encode t \<and> list_all scalar_value t'
          \<and> resolve root file' = Some (File (Some (utf8_encode t'))) \<longrightarrow>
          (fingerprint sha256_hex root file = fingerprint sha256_hex root file'
             \<longleftrightarrow> sha256_hex bs = sha256_hex (utf8_encode t')))"
proof -
  have f: "fingerprint sha256_hex root file = Some (sha256_hex (utf8_encode (utf8_decode bs)))"
    using fingerprint_File [OF assms] by (simp add: hashed_bytes_def)
  show ?thesis
    using f process_file_stores_fingerprint [OF f, of stringToUuid wd cfg s]
    by (auto simp: fingerprint_File hashed_bytes_well_formed simp flip: hashed_bytes_def)
qed

theorem fingerprint_digests_decoded_text_witness:
  "resolve guides_tree (guide ''b.md'') = Some (File (Some [0x42]))
   \<and> list_all scalar_value [0x42] \<and> [0x42] = utf8_encode [0x42]
   \<and> fingerprint byte_digest guides_tree (guide ''b.md'') = Some (byte_digest [0x42])"
proof -
  have r: "resolve guides_tree (guide ''b.md'') = Some (File (Some [0x42]))"
    by (simp add: guides_tree_def mirror_of_def guide_def)
  have t: "list_all scalar_value [0x42]" "[0x42] = utf8_encode [0x42]"
    by (simp_all add: scalar_value_def utf8_encode_def utf8_encode_char_def)
  from fingerprint_digests_decoded_text [OF r, of byte_digest same_string agent_dir acme_docs
      empty_sink "guide ''b.md''" "[0x42]" "[0x42]"] r t
  show ?thesis by blast
qed

text \<open>
  C2 as stated fails: the files \<^verbatim>\<open>guides/x.bin\<close> and \<^verbatim>\<open>guides/y.bin\<close> hold different
  bytes, neither well-formed UTF-8, that decode to the same text, so the same bytes reach
  the hash and the fingerprints are equal although the digest keeps the raw bytes apart.
\<close>

theorem different_bytes_same_fingerprint:
  "resolve binary_tree (guide ''x.bin'') = Some (File (Some [0xFF]))
   \<and> resolve binary_tree (guide ''y.bin'') = Some (File (Some [0xFE]))
   \<and> byte_digest [0xFF] \<noteq> byte_digest [0xFE]
   \<and> hashed_bytes [0xFF] = [0xEF, 0xBF, 0xBD]
   \<and> hashed_bytes [0xFE] = [0xEF, 0xBF, 0xBD]
   \<and> fingerprint byte_digest binary_tree (guide ''x.bin'')
       = fingerprint byte_digest binary_tree (guide ''y.bin'')"
  by (simp add: fingerprint_def binary_tree_def mirror_of_def guide_def hashed_bytes_def
        utf8_decode_def utf8_encode_def utf8_encode_char_def replacement_char_def byte_digest_def)

subsection \<open>Write-back\<close>


lemma resolve_not_dir:
  "(\<And>ds. n \<noteq> Dir ds) \<Longrightarrow> xs \<noteq> [] \<Longrightarrow> resolve n xs = None"
  by (cases n; cases xs) auto

lemma map_of_update: "map_of (AList.update k v es) x = (if x = k then Some v else map_of es x)"
  by (simp add: update_conv')






text \<open>Writes keep directories directories.\<close>

lemma is_dir_simps [simp]:
  "is_dir None = False" "is_dir (Some (File c)) = False" "is_dir (Some (Dir es)) = True"
  by (simp_all add: is_dir_def)

lemma mkdir_p_is_Dir: "mkdir_p d t = Some t' \<Longrightarrow> \<exists>es. t' = Dir es"
  by (induction d t rule: mkdir_p.induct) (auto split: option.splits)

lemma write_file_is_Dir: "write_file p bs t = Some t' \<Longrightarrow> \<exists>es. t' = Dir es"
  by (induction p bs t rule: write_file.induct) (auto split: option.splits fsnode.splits)

lemma mkdir_p_keeps_dir:
  "mkdir_p d t = Some t' \<Longrightarrow> is_dir (resolve t q) \<Longrightarrow> is_dir (resolve t' q)"
proof (induction d t arbitrary: t' q rule: mkdir_p.induct)
  case (1 p c)
  then show ?case by simp
next
  case (2 es)
  then show ?case by simp
next
  case (3 s ss es)
  let ?child = "case map_of es s of None \<Rightarrow> Dir [] | Some n \<Rightarrow> n"
  from "3.prems"(1) obtain n' where n': "mkdir_p ss ?child = Some n'"
    and t': "t' = Dir (AList.update s n' es)"
    by (auto split: option.splits)
  show ?case
  proof (cases q)
    case Nil
    then show ?thesis by (simp add: t')
  next
    case (Cons x xs)
    show ?thesis
    proof (cases "x = s")
      case False
      then show ?thesis using "3.prems"(2) by (simp add: Cons t' map_of_update)
    next
      case True
      with "3.prems"(2) Cons have "is_dir (resolve ?child xs)"
        by (auto split: option.splits)
      from "3.IH" [OF n' this] show ?thesis
        using True by (simp add: Cons t' map_of_update)
    qed
  qed
qed

lemma write_file_keeps_dir:
  "write_file p bs t = Some t' \<Longrightarrow> is_dir (resolve t q) \<Longrightarrow> is_dir (resolve t' q)"
proof (induction p bs t arbitrary: t' q rule: write_file.induct)
  case (1 p bs c)
  then show ?case by simp
next
  case (2 bs es)
  then show ?case by simp
next
  case (3 s bs es)
  from "3.prems"(1) have t': "t' = Dir (AList.update s (File (Some bs)) es)"
    and nd: "\<And>ds. map_of es s \<noteq> Some (Dir ds)"
    by (auto split: option.splits fsnode.splits)
  show ?case
  proof (cases q)
    case Nil
    then show ?thesis by (simp add: t')
  next
    case (Cons x xs)
    show ?thesis
    proof (cases "x = s")
      case False
      then show ?thesis using "3.prems"(2) by (simp add: Cons t' map_of_update)
    next
      case True
      have "\<not> is_dir (resolve (Dir es) (s # xs))"
      proof (cases "map_of es s")
        case None
        then show ?thesis by simp
      next
        case (Some n)
        with nd have n: "\<And>ds. n \<noteq> Dir ds" by auto
        show ?thesis
        proof (cases xs)
          case Nil
          with Some n show ?thesis by (cases n) auto
        next
          case (Cons y ys)
          then have "xs \<noteq> []" by simp
          from resolve_not_dir [OF n this] Some show ?thesis by simp
        qed
      qed
      with "3.prems"(2) Cons True show ?thesis by simp
    qed
  qed
next
  case (4 s v va bs es)
  from "4.prems"(1) obtain n n' where n: "map_of es s = Some n"
    and n': "write_file (v # va) bs n = Some n'"
    and t': "t' = Dir (AList.update s n' es)"
    by (auto split: option.splits)
  show ?case
  proof (cases q)
    case Nil
    then show ?thesis by (simp add: t')
  next
    case (Cons x xs)
    show ?thesis
    proof (cases "x = s")
      case False
      then show ?thesis using "4.prems"(2) by (simp add: Cons t' map_of_update)
    next
      case True
      with "4.prems"(2) Cons n have "is_dir (resolve n xs)" by simp
      from "4.IH" [OF n n' this] show ?thesis
        using True by (simp add: Cons t' map_of_update)
    qed
  qed
qed

lemma write_edit_keeps_dir:
  assumes "write_edit rp file t = (e, t')" and "is_dir (resolve t q)"
  shows "is_dir (resolve t' q)"
proof -
  let ?p = "path_join rp [fst file]"
  show ?thesis
  proof (cases "mkdir_p (butlast ?p) t")
    case None
    with assms show ?thesis by (simp add: write_edit_def Let_def)
  next
    case (Some t1)
    note t1 = mkdir_p_keeps_dir [OF Some assms(2)]
    show ?thesis
    proof (cases "write_file ?p (utf8_encode (snd file)) t1")
      case None
      with assms(1) Some have "t' = t1"
        by (auto simp: write_edit_def Let_def split: if_splits)
      with t1 show ?thesis by simp
    next
      case (Some t2)
      with assms(1) \<open>mkdir_p (butlast ?p) t = Some t1\<close> have "t' = t1 \<or> t' = t2"
        by (auto simp: write_edit_def Let_def split: if_splits)
      with t1 write_file_keeps_dir [OF Some t1] show ?thesis by auto
    qed
  qed
qed

lemma write_edits_keeps_dir:
  "write_edits rp files t = (r, t') \<Longrightarrow> is_dir (resolve t q) \<Longrightarrow> is_dir (resolve t' q)"
proof (induction files arbitrary: t)
  case Nil
  then show ?case by simp
next
  case (Cons f files)
  obtain e t1 where w: "write_edit rp f t = (e, t1)" by (cases "write_edit rp f t") auto
  note d = write_edit_keeps_dir [OF w Cons.prems(2)]
  show ?case
  proof (cases e)
    case (Some err)
    with Cons.prems(1) w d show ?thesis by simp
  next
    case None
    with Cons.prems(1) w have "write_edits rp files t1 = (r, t')" by simp
    from Cons.IH [OF this d] show ?thesis .
  qed
qed























subsection \<open>Distinct files have distinct relative paths\<close>

lemma split_at_slash:
  assumes "x @ a = y @ b" and "CHR ''/'' \<notin> set x" and "CHR ''/'' \<notin> set y"
    and "a = [] \<or> hd a = CHR ''/''" and "b = [] \<or> hd b = CHR ''/''"
  shows "x = y \<and> a = b"
  using assms
proof (induction x arbitrary: y)
  case Nil
  show ?case
  proof (cases y)
    case Nil
    with Nil.prems show ?thesis by simp
  next
    case (Cons c cs)
    with Nil.prems have "a = c # cs @ b" by simp
    with Nil.prems(4) have "c = CHR ''/''" by auto
    with Nil.prems(3) Cons show ?thesis by simp
  qed
next
  case (Cons c x)
  show ?case
  proof (cases y)
    case Nil
    with Cons.prems have "b = c # x @ a" by simp
    with Cons.prems(5) have "c = CHR ''/''" by auto
    with Cons.prems(2) show ?thesis by simp
  next
    case (Cons d ys)
    with Cons.prems have "c = d" and "x @ a = ys @ b" by simp_all
    with Cons.IH [of ys] Cons.prems Cons show ?thesis by simp
  qed
qed

lemma join_slash_Cons:
  "join_slash (s # ss) = s @ (if ss = [] then [] else CHR ''/'' # join_slash ss)"
  by (cases ss) simp_all

lemma join_slash_eq_Nil: "list_all segment xs \<Longrightarrow> join_slash xs = [] \<longleftrightarrow> xs = []"
  by (cases xs) (simp_all add: join_slash_Cons segment_def)

lemma join_slash_inj:
  "list_all segment xs \<Longrightarrow> list_all segment ys \<Longrightarrow> join_slash xs = join_slash ys \<Longrightarrow> xs = ys"
proof (induction xs arbitrary: ys)
  case Nil
  then show ?case using join_slash_eq_Nil [of ys] by simp
next
  case (Cons x xs)
  show ?case
  proof (cases ys)
    case Nil
    with Cons.prems show ?thesis using join_slash_eq_Nil [of "x # xs"] by simp
  next
    case (Cons y ys')
    let ?a = "if xs = [] then [] else CHR ''/'' # join_slash xs"
    let ?b = "if ys' = [] then [] else CHR ''/'' # join_slash ys'"
    from Cons.prems(3) Cons have e: "x @ ?a = y @ ?b"
      by (simp only: join_slash_Cons)
    from Cons.prems(1,2) Cons have "segment x" and "segment y"
      and lx: "list_all segment xs" and ly: "list_all segment ys'"
      by simp_all
    then have sx: "CHR ''/'' \<notin> set x" and sy: "CHR ''/'' \<notin> set y"
      by (simp_all add: segment_def)
    from split_at_slash [OF e sx sy] have xy: "x = y" and ab: "?a = ?b" by simp_all
    have "join_slash xs = join_slash ys'"
    proof (cases "xs = []")
      case True
      with ab have "ys' = []" by (simp split: if_splits)
      with True show ?thesis by simp
    next
      case False
      with ab show ?thesis by (simp split: if_splits)
    qed
    from Cons.IH [OF lx ly this] xy Cons show ?thesis by simp
  qed
qed

lemma strip_common_split:
  "strip_common a b = (f, t) \<Longrightarrow> \<exists>c. a = c @ f \<and> b = c @ t"
proof (induction a b rule: strip_common.induct)
  case (1 x as y bs)
  show ?case
  proof (cases "x = y")
    case True
    with 1 obtain c where "as = c @ f" "bs = c @ t" by auto
    with True have "x # as = (x # c) @ f \<and> y # bs = (x # c) @ t" by simp
    then show ?thesis by blast
  next
    case False
    with 1 show ?thesis by auto
  qed
qed auto

lemma replicate_prefix_unique:
  assumes "replicate j z @ t = replicate k z @ u" and "z \<notin> set t" and "z \<notin> set u"
  shows "j = k \<and> t = u"
  using assms
proof (induction j arbitrary: k)
  case 0
  then show ?case by (cases k) auto
next
  case (Suc j)
  then show ?case by (cases k) auto
qed

lemma segment_dots: "list_all segment (replicate k ''..'')"
  by (induction k) (simp_all add: segment_def)

lemma valid_name_segment: "list_all valid_name xs \<Longrightarrow> list_all segment xs"
  by (induction xs) (simp_all add: valid_name_def segment_def)

lemma valid_name_not_dots: "list_all valid_name xs \<Longrightarrow> ''..'' \<notin> set xs"
  by (induction xs) (auto simp: valid_name_def)

text \<open>
  \<^verbatim>\<open>path.relative\<close> from one directory keeps paths of valid names apart.
\<close>

lemma path_relative_inj:
  assumes "path_relative rp a = path_relative rp b"
    and "list_all valid_name a" and "list_all valid_name b"
  shows "a = b"
proof -
  obtain f t where ft: "strip_common rp a = (f, t)" by (cases "strip_common rp a") auto
  obtain g u where gu: "strip_common rp b = (g, u)" by (cases "strip_common rp b") auto
  from strip_common_split [OF ft] obtain c where c: "rp = c @ f" "a = c @ t" by blast
  from strip_common_split [OF gu] obtain d where d: "rp = d @ g" "b = d @ u" by blast
  have vt: "list_all valid_name t" and vu: "list_all valid_name u"
    using assms(2,3) c(2) d(2) by simp_all
  have seg: "\<And>xs k. list_all valid_name xs \<Longrightarrow> list_all segment (replicate k ''..'' @ xs)"
    by (simp add: segment_dots valid_name_segment)
  have m: "map (\<lambda>_. ''..'') f = replicate (length f) ''..''"
          "map (\<lambda>_. ''..'') g = replicate (length g) ''..''"
    by (simp_all add: map_replicate_const)
  from assms(1) ft gu have "join_slash (replicate (length f) ''..'' @ t)
                          = join_slash (replicate (length g) ''..'' @ u)"
    by (simp add: path_relative_def m)
  from join_slash_inj [OF seg [OF vt] seg [OF vu] this]
  have e: "replicate (length f) ''..'' @ t = replicate (length g) ''..'' @ u" .
  have nt: "''..'' \<notin> set t" and nu: "''..'' \<notin> set u"
    using vt vu by (simp_all add: valid_name_not_dots)
  from replicate_prefix_unique [OF e nt nu] have l: "length f = length g" and tu: "t = u" by simp_all
  from c(1) d(1) l have "c = d" by (metis append_eq_append_conv)
  with tu c(2) d(2) show ?thesis by simp
qed

lemma valid_map_of: "valid_entries es \<Longrightarrow> map_of es s = Some n \<Longrightarrow> valid_name s \<and> valid_names n"
  by (induction es) (auto split: if_splits)

lemma valid_resolve:
  "valid_names n \<Longrightarrow> resolve n p = Some n' \<Longrightarrow> list_all valid_name p \<and> valid_names n'"
proof (induction n p rule: resolve.induct)
  case (3 es s ss)
  then show ?case by (auto split: option.splits dest: valid_map_of)
qed simp_all

lemma scanned_files_valid:
  assumes "wf_fs root" and "valid_names root" and "file \<in> set (scanned_files root wd cfg)"
  shows "list_all valid_name file"
proof -
  from assms(3) glob_nodir_mem [OF assms(1)] have "is_file (resolve root file)"
    by (auto simp: scanned_files_def)
  then obtain c where "resolve root file = Some (File c)"
    by (auto simp: is_file_def split: option.splits fsnode.splits)
  from valid_resolve [OF assms(2) this] show ?thesis by simp
qed

text \<open>
  In a well-formed file system with valid names, the listed files have distinct
  identifiers as soon as \<^verbatim>\<open>stringToUuid\<close> keeps their keys apart: the distinctness that
  the properties of the scan loop assume is the absence of a collision, nothing else.
\<close>

lemma distinct_knowledgeIds:
  assumes "wf_fs root" and "valid_names root"
    and "inj_on stringToUuid
           ((\<lambda>file. knowledge_key (cfg_owner cfg) (cfg_repo cfg)
                      (path_relative (repoPath wd cfg) file)) ` set (scanned_files root wd cfg))"
  shows "distinct (map (knowledgeId stringToUuid wd cfg) (scanned_files root wd cfg))"
proof -
  let ?key = "\<lambda>file. knowledge_key (cfg_owner cfg) (cfg_repo cfg)
                      (path_relative (repoPath wd cfg) file)"
  have d: "distinct (scanned_files root wd cfg)"
    using glob_nodir_distinct [OF assms(1)] by (simp add: scanned_files_def)
  have k: "inj_on ?key (set (scanned_files root wd cfg))"
  proof (rule inj_onI)
    fix a b assume a: "a \<in> set (scanned_files root wd cfg)"
      and b: "b \<in> set (scanned_files root wd cfg)" and e: "?key a = ?key b"
    from e have "path_relative (repoPath wd cfg) a = path_relative (repoPath wd cfg) b"
      by (simp add: knowledge_key_def)
    from path_relative_inj [OF this scanned_files_valid [OF assms(1,2) a]
        scanned_files_valid [OF assms(1,2) b]]
    show "a = b" .
  qed
  have "knowledgeId stringToUuid wd cfg = stringToUuid \<circ> ?key"
    by (rule ext) (simp add: knowledgeId_def)
  moreover have "inj_on (stringToUuid \<circ> ?key) (set (scanned_files root wd cfg))"
    using k assms(3) by (rule comp_inj_on)
  ultimately show ?thesis using d by (simp add: distinct_map)
qed

end
